theory Spec2Isabelle
  imports Main "HOL-Library.Word"
begin

unbundle bit_operations_syntax

section \<open>Data model of the livery window (company\_gui.cpp)\<close>

text \<open>
  The livery window reads two externally owned pools (groups and companies) and keeps a
  small state of its own: the livery class, the selection, the row count and the flattened
  group list with its indents.  Identifiers are the machine integers of the source:
  a \<open>GroupID\<close> is 16 bits wide, company identifiers and colours are bytes, the selection
  \<open>sel\<close> is a \<open>uint32\<close>.
\<close>

type_synonym GroupID = "16 word"
type_synonym CompanyID = "8 word"
type_synonym byte = "8 word"
type_synonym uint32 = "32 word"
type_synonym VehicleType = "8 word"

definition INVALID_GROUP :: GroupID where
  "INVALID_GROUP = 0xFFFF"

definition VEH_TRAIN :: VehicleType where "VEH_TRAIN = 0"
definition VEH_ROAD :: VehicleType where "VEH_ROAD = 1"
definition VEH_SHIP :: VehicleType where "VEH_SHIP = 2"
definition VEH_AIRCRAFT :: VehicleType where "VEH_AIRCRAFT = 3"

definition COLOUR_END :: nat where "COLOUR_END = 16"
definition INVALID_COLOUR :: int where "INVALID_COLOUR = 0xFF"

text \<open>Livery schemes are numbered \<open>LS_BEGIN = LS_DEFAULT = 0\<close> up to \<open>LS_END\<close>
  (the length of the table \<open>_livery_class\<close>).\<close>

type_synonym LiveryScheme = nat

definition LS_BEGIN :: LiveryScheme where "LS_BEGIN = 0"
definition LS_DEFAULT :: LiveryScheme where "LS_DEFAULT = 0"

datatype LiveryClass =
    LC_OTHER | LC_RAIL | LC_ROAD | LC_SHIP | LC_AIRCRAFT
  | LC_GROUP_RAIL | LC_GROUP_ROAD | LC_GROUP_SHIP | LC_GROUP_AIRCRAFT

text \<open>The numeric value of the enumerators; the source compares and subtracts them.\<close>

fun lc_code :: "LiveryClass \<Rightarrow> nat" where
  "lc_code LC_OTHER = 0"
| "lc_code LC_RAIL = 1"
| "lc_code LC_ROAD = 2"
| "lc_code LC_SHIP = 3"
| "lc_code LC_AIRCRAFT = 4"
| "lc_code LC_GROUP_RAIL = 5"
| "lc_code LC_GROUP_ROAD = 6"
| "lc_code LC_GROUP_SHIP = 7"
| "lc_code LC_GROUP_AIRCRAFT = 8"

text \<open>\<open>this->livery_class < LC_GROUP_RAIL\<close>: a scheme class is active.\<close>

definition scheme_class :: "LiveryClass \<Rightarrow> bool" where
  "scheme_class lc = (lc_code lc < lc_code LC_GROUP_RAIL)"

text \<open>Association of liveries to livery classes (the table \<open>_livery_class[LS_END]\<close>).\<close>

definition livery_class_table :: "LiveryClass list" where
  "livery_class_table =
     [LC_OTHER,
      LC_RAIL, LC_RAIL, LC_RAIL, LC_RAIL, LC_RAIL, LC_RAIL, LC_RAIL, LC_RAIL, LC_RAIL,
      LC_RAIL, LC_RAIL, LC_RAIL, LC_RAIL,
      LC_ROAD, LC_ROAD,
      LC_SHIP, LC_SHIP,
      LC_AIRCRAFT, LC_AIRCRAFT, LC_AIRCRAFT,
      LC_ROAD, LC_ROAD]"

definition LS_END :: LiveryScheme where
  "LS_END = length livery_class_table"

record Livery =
  in_use :: byte
  colour1 :: byte
  colour2 :: byte

record Group =
  index :: GroupID
  parent :: GroupID
  owner :: CompanyID
  vehicle_type :: VehicleType
  livery :: Livery

text \<open>A company: its pool index, its primary colour and its array \<open>livery[LS_END]\<close>,
  read only at schemes below \<open>LS_END\<close>.\<close>

record Company =
  cindex :: CompanyID
  colour :: byte
  clivery :: "LiveryScheme \<Rightarrow> Livery"

text \<open>
  The group pool is modelled by the sequence \<open>Group::Iterate()\<close> walks.  A pool stores
  every item in the slot its \<open>index\<close> names, and \<open>INVALID_GROUP\<close> is not a slot: the
  indices of a pool are pairwise distinct and none is the sentinel.
\<close>

definition pool_ok :: "Group list \<Rightarrow> bool" where
  "pool_ok pool = (distinct (map index pool) \<and> INVALID_GROUP \<notin> set (map index pool))"

text \<open>\<open>Group::IsValidID\<close> and \<open>Group::Get\<close> on that pool; \<open>Get\<close> of an invalid
  identifier is a fault of the source and has no result here.\<close>

definition Group_IsValidID :: "Group list \<Rightarrow> nat \<Rightarrow> bool" where
  "Group_IsValidID pool i = (\<exists>g \<in> set pool. unat (index g) = i)"

definition Group_Get :: "Group list \<Rightarrow> nat \<Rightarrow> Group option" where
  "Group_Get pool i = find (\<lambda>g. unat (index g) = i) pool"

definition Company_Get :: "Company list \<Rightarrow> CompanyID \<Rightarrow> Company option" where
  "Company_Get companies i = find (\<lambda>c. cindex c = i) companies"

text \<open>The window.  \<open>groups\<close> holds the records the source points to; \<open>need_rebuild\<close>
  is the rebuild flag of the \<open>GUIList\<close>; \<open>window_number\<close> is the company shown.\<close>

record SelectCompanyLiveryWindow =
  sel :: uint32
  livery_class :: LiveryClass
  rows :: nat
  groups :: "Group list"
  indents :: "int list"
  need_rebuild :: bool
  window_number :: CompanyID

subsection \<open>Bit helpers\<close>

definition HasBit :: "uint32 \<Rightarrow> nat \<Rightarrow> bool" where
  "HasBit x y = (x AND push_bit y 1 \<noteq> 0)"

definition SetBit :: "uint32 \<Rightarrow> nat \<Rightarrow> uint32" where
  "SetBit x y = x OR push_bit y 1"

definition ClrBit :: "uint32 \<Rightarrow> nat \<Rightarrow> uint32" where
  "ClrBit x y = x AND NOT (push_bit y 1)"

definition ToggleBit :: "uint32 \<Rightarrow> nat \<Rightarrow> uint32" where
  "ToggleBit x y = x XOR push_bit y 1"

text \<open>\<open>HasBit\<close> on the byte \<open>in_use\<close> of a livery.\<close>

definition HasBit8 :: "byte \<Rightarrow> nat \<Rightarrow> bool" where
  "HasBit8 x y = (x AND push_bit y 1 \<noteq> 0)"

section \<open>Flattening the group hierarchy\<close>

text \<open>
  \<open>AddChildren\<close> loops over \<open>source\<close> and calls itself for every group it appends.
  The loop is \<open>AddChildren_loop\<close>, whose third argument is the part of \<open>source\<close> still to
  visit.  The recursion of the source is not structural, so the model counts it: \<open>fuel\<close>
  is the number of nested recursive calls still allowed below the current one, and
  running out of it is the result \<open>None\<close>.
\<close>

fun AddChildren_loop ::
  "nat \<Rightarrow> Group list \<Rightarrow> Group list \<Rightarrow> GroupID \<Rightarrow> int \<Rightarrow>
   SelectCompanyLiveryWindow \<Rightarrow> SelectCompanyLiveryWindow option" where
  "AddChildren_loop fuel source [] p indent w = Some w"
| "AddChildren_loop fuel source (g # rest) p indent w =
     (if parent g \<noteq> p then AddChildren_loop fuel source rest p indent w
      else (case fuel of
              0 \<Rightarrow> None
            | Suc n \<Rightarrow>
                (case AddChildren_loop n source source (index g) (indent + 1)
                        (w\<lparr>groups := groups w @ [g], indents := indents w @ [indent]\<rparr>) of
                   None \<Rightarrow> None
                 | Some w' \<Rightarrow> AddChildren_loop (Suc n) source rest p indent w')))"

definition AddChildren ::
  "nat \<Rightarrow> Group list \<Rightarrow> GroupID \<Rightarrow> int \<Rightarrow>
   SelectCompanyLiveryWindow \<Rightarrow> SelectCompanyLiveryWindow option" where
  "AddChildren fuel source p indent w = AddChildren_loop fuel source source p indent w"

text \<open>
  The names the sort compares.  \<open>GetString\<close> is not among the sources and is a
  parameter: the resolved display name of a group index.  The source formats the name
  into \<open>char last_name[2][64]\<close> up to \<open>lastof\<close>, so the text compared is what fits the
  buffer before the terminator: the first 63 bytes of the name.
\<close>

definition name_buffer :: "(GroupID \<Rightarrow> string) \<Rightarrow> GroupID \<Rightarrow> string" where
  "name_buffer GetString i = take 63 (GetString i)"

text \<open>
  The comparison handed to \<open>list.Sort\<close>.  \<open>strnatcmp\<close> is not among the sources
  and is a parameter; the two cached groups of the source only avoid formatting a name
  twice.
\<close>

definition group_name_sorter ::
  "(string \<Rightarrow> string \<Rightarrow> int) \<Rightarrow> (GroupID \<Rightarrow> string) \<Rightarrow> Group \<Rightarrow> Group \<Rightarrow> bool" where
  "group_name_sorter strnatcmp GetString a b =
     (let r = strnatcmp (name_buffer GetString (index a)) (name_buffer GetString (index b))
      in if r = 0 then index a < index b else r < 0)"

text \<open>
  Modelled from the spec: \<open>GUIList::Sort\<close> (sortlist\_type.h) is not among the sources.
  The spec has the staging set sorted by the comparison; the model is an insertion sort
  with the comparison as its strict order.
\<close>

fun sort_insert :: "('a \<Rightarrow> 'a \<Rightarrow> bool) \<Rightarrow> 'a \<Rightarrow> 'a list \<Rightarrow> 'a list" where
  "sort_insert lt x [] = [x]"
| "sort_insert lt x (y # ys) = (if lt y x then y # sort_insert lt x ys else x # y # ys)"

definition Sort :: "('a \<Rightarrow> 'a \<Rightarrow> bool) \<Rightarrow> 'a list \<Rightarrow> 'a list" where
  "Sort lt xs = foldr (sort_insert lt) xs []"

text \<open>The vehicle type of a group class, \<open>(VehicleType)(livery_class - LC_GROUP_RAIL)\<close>.\<close>

definition class_vtype :: "LiveryClass \<Rightarrow> VehicleType" where
  "class_vtype lc = of_nat (lc_code lc - lc_code LC_GROUP_RAIL)"

text \<open>The filter of \<open>BuildGroupList\<close> and its staging list: the filtered pool, sorted.\<close>

definition group_filter :: "CompanyID \<Rightarrow> VehicleType \<Rightarrow> Group \<Rightarrow> bool" where
  "group_filter own vtype g = (owner g = own \<and> vehicle_type g = vtype)"

definition staging_list ::
  "(string \<Rightarrow> string \<Rightarrow> int) \<Rightarrow> (GroupID \<Rightarrow> string) \<Rightarrow> Group list \<Rightarrow>
   CompanyID \<Rightarrow> VehicleType \<Rightarrow> Group list" where
  "staging_list strnatcmp GetString pool own vtype =
     Sort (group_name_sorter strnatcmp GetString)
          (filter (group_filter own vtype) pool)"

definition BuildGroupList ::
  "nat \<Rightarrow> (string \<Rightarrow> string \<Rightarrow> int) \<Rightarrow> (GroupID \<Rightarrow> string) \<Rightarrow> Group list \<Rightarrow>
   CompanyID \<Rightarrow> SelectCompanyLiveryWindow \<Rightarrow> SelectCompanyLiveryWindow option" where
  "BuildGroupList fuel strnatcmp GetString pool own w =
     (if \<not> need_rebuild w then Some w
      else
        let w1 = w\<lparr>groups := [], indents := []\<rparr> in
        (case (if \<not> scheme_class (livery_class w1)
               then AddChildren fuel
                      (staging_list strnatcmp GetString pool own (class_vtype (livery_class w1)))
                      INVALID_GROUP 0 w1
               else Some w1) of
           None \<Rightarrow> None
         | Some w2 \<Rightarrow> Some (w2\<lparr>need_rebuild := False\<rparr>)))"

section \<open>Rows, clicks, the colour dropdown and invalidation\<close>

text \<open>
  What the source does on a fault is a value of the model: a failed \<open>assert\<close>, a
  \<open>Get\<close> on a pool with an identifier that is not valid, a vector read past its size.
\<close>

datatype error = AssertionFailed | InvalidPoolAccess | OutOfRange

text \<open>
  A scheme has a row in a scheme class when the table assigns it to the class and its bit
  is set in \<open>_loaded_newgrf_features.used_liveries\<close> (the parameter \<open>used\<close>).
\<close>

definition scheme_active :: "uint32 \<Rightarrow> LiveryClass \<Rightarrow> LiveryScheme \<Rightarrow> bool" where
  "scheme_active used lc scheme = (livery_class_table ! scheme = lc \<and> HasBit used scheme)"

text \<open>\<open>SetRows\<close>: the counting loop over the schemes, or the size of the group list.\<close>

definition SetRows :: "uint32 \<Rightarrow> SelectCompanyLiveryWindow \<Rightarrow> SelectCompanyLiveryWindow" where
  "SetRows used w =
     (if scheme_class (livery_class w)
      then w\<lparr>rows := foldl (\<lambda>r scheme. if scheme_active used (livery_class w) scheme then r + 1 else r)
                          0 [LS_DEFAULT..<LS_END]\<rparr>
      else w\<lparr>rows := length (groups w)\<rparr>)"

text \<open>
  The scheme rows of \<open>DrawWidget\<close>: the loop skips the first \<open>pos\<close> active schemes
  (\<open>if (pos-- > 0) continue\<close>) and draws every later one, highlighted when its bit is
  set in \<open>sel\<close>.  The result lists the schemes drawn, top to bottom.
\<close>

fun draw_schemes ::
  "(LiveryScheme \<Rightarrow> bool) \<Rightarrow> uint32 \<Rightarrow> LiveryScheme list \<Rightarrow> int \<Rightarrow> (LiveryScheme \<times> bool) list" where
  "draw_schemes act s [] pos = []"
| "draw_schemes act s (scheme # rest) pos =
     (if act scheme
      then (if pos > 0 then draw_schemes act s rest (pos - 1)
            else (scheme, HasBit s scheme) # draw_schemes act s rest (pos - 1))
      else draw_schemes act s rest pos)"

definition DrawWidget_schemes ::
  "uint32 \<Rightarrow> SelectCompanyLiveryWindow \<Rightarrow> int \<Rightarrow> (LiveryScheme \<times> bool) list" where
  "DrawWidget_schemes used w pos =
     draw_schemes (scheme_active used (livery_class w)) (sel w) [LS_DEFAULT..<LS_END] pos"

text \<open>
  The loop of a click on the matrix in a scheme class,
  \<open>for (scheme = LS_BEGIN; scheme <= j && scheme < LS_END; scheme++) if (...) j++\<close>.
\<close>

function click_scheme :: "(LiveryScheme \<Rightarrow> bool) \<Rightarrow> LiveryScheme \<Rightarrow> LiveryScheme \<Rightarrow> LiveryScheme" where
  "click_scheme act scheme j =
     (if scheme \<le> j \<and> scheme < LS_END
      then click_scheme act (scheme + 1) (if \<not> act scheme then j + 1 else j)
      else j)"
  by pat_completeness auto
termination
  by (relation "measure (\<lambda>(act, scheme, j). LS_END - scheme)") auto

text \<open>
  \<open>OnClick\<close> on \<open>WID_SCL_MATRIX\<close>, with the row the scrollbar computed and the state of
  the control key.
\<close>

definition OnClick_matrix ::
  "uint32 \<Rightarrow> bool \<Rightarrow> nat \<Rightarrow> SelectCompanyLiveryWindow \<Rightarrow> error + SelectCompanyLiveryWindow" where
  "OnClick_matrix used ctrl_pressed row w =
     (if row \<ge> rows w then Inr w
      else if scheme_class (livery_class w) then
        (let j = click_scheme (scheme_active used (livery_class w)) LS_BEGIN row in
         if \<not> j < LS_END then Inl AssertionFailed
         else if ctrl_pressed then Inr (w\<lparr>sel := ToggleBit (sel w) j\<rparr>)
         else Inr (w\<lparr>sel := push_bit j 1\<rparr>))
      else if row < length (groups w) then Inr (w\<lparr>sel := ucast (index (groups w ! row))\<rparr>)
      else Inl OutOfRange)"

text \<open>\<open>OnClick\<close> on one of the class buttons; \<open>lc\<close> is the class of the button.\<close>

definition OnClick_class ::
  "nat \<Rightarrow> (string \<Rightarrow> string \<Rightarrow> int) \<Rightarrow> (GroupID \<Rightarrow> string) \<Rightarrow> Group list \<Rightarrow> uint32 \<Rightarrow>
   LiveryClass \<Rightarrow> SelectCompanyLiveryWindow \<Rightarrow> SelectCompanyLiveryWindow option" where
  "OnClick_class fuel strnatcmp GetString pool used lc w =
     (let w1 = w\<lparr>livery_class := lc\<rparr> in
      if scheme_class lc then
        Some (SetRows used
               (w1\<lparr>sel := (case find (scheme_active used lc) [LS_DEFAULT..<LS_END] of
                               None \<Rightarrow> 0
                             | Some scheme \<Rightarrow> push_bit scheme 1)\<rparr>))
      else
        (case BuildGroupList fuel strnatcmp GetString pool (window_number w1)
                (w1\<lparr>sel := ucast INVALID_GROUP, need_rebuild := True\<rparr>) of
           None \<Rightarrow> None
         | Some w2 \<Rightarrow>
             Some (SetRows used
                    (if length (groups w2) > 0 then w2\<lparr>sel := ucast (index (groups w2 ! 0))\<rparr>
                     else w2))))"

text \<open>The sixteen names of \<open>_colour_dropdown\<close>; the palette of the dropdown has one entry
  for each.\<close>

definition colour_dropdown :: "string list" where
  "colour_dropdown =
     [''STR_COLOUR_DARK_BLUE'', ''STR_COLOUR_PALE_GREEN'', ''STR_COLOUR_PINK'',
      ''STR_COLOUR_YELLOW'', ''STR_COLOUR_RED'', ''STR_COLOUR_LIGHT_BLUE'',
      ''STR_COLOUR_GREEN'', ''STR_COLOUR_DARK_GREEN'', ''STR_COLOUR_BLUE'',
      ''STR_COLOUR_CREAM'', ''STR_COLOUR_MAUVE'', ''STR_COLOUR_PURPLE'',
      ''STR_COLOUR_ORANGE'', ''STR_COLOUR_BROWN'', ''STR_COLOUR_GREY'', ''STR_COLOUR_WHITE'']"

text \<open>
  The first part of \<open>ShowColourDropDownMenu\<close>: the livery shown (\<open>livery\<close>) and the one
  it falls back to (\<open>default_livery\<close>, \<open>None\<close> for \<open>nullptr\<close>).
\<close>

definition dropdown_liveries ::
  "Company \<Rightarrow> Group list \<Rightarrow> SelectCompanyLiveryWindow \<Rightarrow> error + (Livery \<times> Livery option)" where
  "dropdown_liveries c pool w =
     (if scheme_class (livery_class w) then
        (let scheme = (case find (HasBit (sel w)) [LS_BEGIN..<LS_END] of
                         None \<Rightarrow> LS_DEFAULT
                       | Some s \<Rightarrow> s)
         in Inr (clivery c scheme,
                 if scheme \<noteq> LS_DEFAULT then Some (clivery c LS_DEFAULT) else None))
      else
        (case Group_Get pool (unat (sel w)) of
           None \<Rightarrow> Inl InvalidPoolAccess
         | Some g \<Rightarrow>
             if parent g = INVALID_GROUP then Inr (livery g, Some (clivery c LS_DEFAULT))
             else (case Group_Get pool (unat (parent g)) of
                     None \<Rightarrow> Inl InvalidPoolAccess
                   | Some pg \<Rightarrow> Inr (livery g, Some (livery pg)))))"

text \<open>The colours of the other companies, as the bits of \<open>used_colours\<close>.\<close>

definition used_colours_of :: "Company list \<Rightarrow> CompanyID \<Rightarrow> uint32" where
  "used_colours_of companies local_company =
     foldl (\<lambda>u c. if cindex c \<noteq> local_company then SetBit u (unat (colour c)) else u) 0 companies"

text \<open>
  \<open>ShowColourDropDownMenu\<close> returns what it hands to \<open>ShowDropDownList\<close>: the items
  (result and masked flag of each \<open>DropDownListColourItem\<close>) and the selected result.
\<close>

definition ShowColourDropDownMenu ::
  "Company list \<Rightarrow> Group list \<Rightarrow> CompanyID \<Rightarrow> bool \<Rightarrow> SelectCompanyLiveryWindow \<Rightarrow>
   error + ((int \<times> bool) list \<times> int)" where
  "ShowColourDropDownMenu companies pool local_company primary w =
     (let used_colours =
            (if scheme_class (livery_class w) \<and> HasBit (sel w) LS_DEFAULT \<and> primary
             then used_colours_of companies local_company else 0)
      in case Company_Get companies (window_number w) of
           None \<Rightarrow> Inl InvalidPoolAccess
         | Some c \<Rightarrow>
             (case dropdown_liveries c pool w of
                Inl e \<Rightarrow> Inl e
              | Inr (liv, default_livery) \<Rightarrow>
                  (let default_col =
                         (case default_livery of
                            None \<Rightarrow> (0 :: byte)
                          | Some dl \<Rightarrow> (if primary then colour1 dl else colour2 dl) + of_nat COLOUR_END);
                       list =
                         (case default_livery of
                            None \<Rightarrow> []
                          | Some dl \<Rightarrow> [(uint default_col, False)])
                         @ map (\<lambda>i. (int i, HasBit used_colours i)) [0..<length colour_dropdown];
                       selected =
                         (if default_livery = None \<or> HasBit8 (in_use liv) (if primary then 0 else 1)
                          then (if primary then colour1 liv else colour2 liv)
                          else default_col)
                   in Inr (list, uint selected))))"

text \<open>
  \<open>OnDropdownSelect\<close> returns the commands it posts, in order, and the window, which
  it leaves as it was.
\<close>

datatype Command =
    CMD_SET_COMPANY_COLOUR LiveryScheme bool int
  | CMD_SET_GROUP_LIVERY GroupID bool int

definition OnDropdownSelect ::
  "uint32 \<Rightarrow> bool \<Rightarrow> CompanyID \<Rightarrow> bool \<Rightarrow> int \<Rightarrow> SelectCompanyLiveryWindow \<Rightarrow>
   Command list \<times> SelectCompanyLiveryWindow" where
  "OnDropdownSelect used ctrl_pressed local_company primary idx w =
     (if window_number w \<noteq> local_company then ([], w)
      else
        (let idx' = (if idx \<ge> int COLOUR_END then INVALID_COLOUR else idx) in
         if scheme_class (livery_class w) then
           (map (\<lambda>scheme. CMD_SET_COMPANY_COLOUR scheme primary idx')
                (filter (\<lambda>scheme. HasBit (sel w) scheme \<or>
                                    (ctrl_pressed \<and> scheme_active used (livery_class w) scheme))
                        [LS_DEFAULT..<LS_END]),
            w)
         else ([CMD_SET_GROUP_LIVERY (ucast (sel w)) primary idx'], w)))"

text \<open>The setting \<open>_settings_client.gui.liveries\<close>.\<close>

datatype LiveryType = LIT_NONE | LIT_COMPANY | LIT_ALL

text \<open>
  \<open>OnInvalidateData\<close>.  With \<open>data \<noteq> -1\<close> the data is a vehicle type and the list is
  rebuilt when its group class is shown.  With \<open>data = -1\<close> the loop over the schemes
  clears the bits of unused schemes and finds out whether the class is still valid; the
  enabling and disabling of the class buttons is not modelled.
\<close>

definition invalidate_scan ::
  "uint32 \<Rightarrow> LiveryClass \<Rightarrow> bool \<times> uint32 \<Rightarrow> LiveryScheme \<Rightarrow> bool \<times> uint32" where
  "invalidate_scan used lc st scheme =
     (if HasBit used scheme
      then (fst st \<or> livery_class_table ! scheme = lc, snd st)
      else if scheme_class lc then (fst st, ClrBit (snd st) scheme)
      else st)"

definition OnInvalidateData ::
  "nat \<Rightarrow> (string \<Rightarrow> string \<Rightarrow> int) \<Rightarrow> (GroupID \<Rightarrow> string) \<Rightarrow> Group list \<Rightarrow> uint32 \<Rightarrow>
   LiveryType \<Rightarrow> CompanyID \<Rightarrow> int \<Rightarrow> bool \<Rightarrow>
   SelectCompanyLiveryWindow \<Rightarrow> SelectCompanyLiveryWindow option" where
  "OnInvalidateData fuel strnatcmp GetString pool used liveries local_company data gui_scope w =
     (if \<not> gui_scope then Some w
      else if data \<noteq> - 1 then
        (if int (lc_code (livery_class w)) = data + int (lc_code LC_GROUP_RAIL) then
           (case BuildGroupList fuel strnatcmp GetString pool (window_number w)
                   (w\<lparr>need_rebuild := True\<rparr>) of
              None \<Rightarrow> None
            | Some w1 \<Rightarrow>
                (let w2 = SetRows used w1 in
                 if \<not> Group_IsValidID pool (unat (sel w2)) then
                   (let w3 = w2\<lparr>sel := ucast INVALID_GROUP\<rparr> in
                    Some (if length (groups w3) > 0
                          then w3\<lparr>sel := ucast (index (groups w3 ! 0))\<rparr> else w3))
                 else Some w2))
         else Some w)
      else
        (let valid0 = (livery_class w = LC_OTHER \<or> \<not> scheme_class (livery_class w));
             st = (if liveries = LIT_ALL \<or> (liveries = LIT_COMPANY \<and> window_number w = local_company)
                   then foldl (invalidate_scan used (livery_class w)) (valid0, sel w)
                              [LS_DEFAULT..<LS_END]
                   else (valid0, sel w));
             w1 = w\<lparr>sel := snd st\<rparr>
         in if \<not> fst st
            then OnClick_class fuel strnatcmp GetString pool used LC_OTHER w1
            else Some w1))"

section \<open>Notions used to state and prove the properties\<close>

subsection \<open>The rows a call of \<open>AddChildren\<close> appends\<close>

text \<open>
  \<open>emit\<close> is \<open>AddChildren_loop\<close> without the window: it returns the rows (group and
  indent) the loop appends, in order.  Lemma \<open>AddChildren_loop_emit\<close> below shows that the
  loop of the source appends exactly these rows to \<open>groups\<close> and \<open>indents\<close>.
\<close>

fun emit :: "nat \<Rightarrow> Group list \<Rightarrow> Group list \<Rightarrow> GroupID \<Rightarrow> nat \<Rightarrow> (Group \<times> nat) list option" where
  "emit fuel source [] p d = Some []"
| "emit fuel source (g # rest) p d =
     (if parent g \<noteq> p then emit fuel source rest p d
      else (case fuel of
              0 \<Rightarrow> None
            | Suc n \<Rightarrow>
                (case emit n source source (index g) (Suc d) of
                   None \<Rightarrow> None
                 | Some sub \<Rightarrow>
                     (case emit (Suc n) source rest p d of
                        None \<Rightarrow> None
                      | Some r \<Rightarrow> Some ((g, d) # sub @ r)))))"

definition push_rows :: "(Group \<times> nat) list \<Rightarrow> SelectCompanyLiveryWindow \<Rightarrow> SelectCompanyLiveryWindow" where
  "push_rows out w = w\<lparr>groups := groups w @ map fst out, indents := indents w @ map (\<lambda>r. int (snd r)) out\<rparr>"

text \<open>The window after a rebuild that produced the rows \<open>out\<close>.\<close>

definition rows_window :: "SelectCompanyLiveryWindow \<Rightarrow> (Group \<times> nat) list \<Rightarrow> SelectCompanyLiveryWindow" where
  "rows_window w out = w\<lparr>groups := map fst out, indents := map (\<lambda>r. int (snd r)) out, need_rebuild := False\<rparr>"

text \<open>The list \<open>AddChildren\<close> is started on: empty for a scheme class.\<close>

definition shown_source ::
  "(string \<Rightarrow> string \<Rightarrow> int) \<Rightarrow> (GroupID \<Rightarrow> string) \<Rightarrow> Group list \<Rightarrow> CompanyID \<Rightarrow> LiveryClass \<Rightarrow> Group list" where
  "shown_source cmp nm pool own lc =
     (if scheme_class lc then [] else staging_list cmp nm pool own (class_vtype lc))"

subsection \<open>Parent links inside a list of groups\<close>

text \<open>
  \<open>ancestor src k a x\<close>: following \<open>k\<close> parent links from \<open>x\<close>, each to a group of
  \<open>src\<close>, ends at \<open>a\<close>.  \<open>depth_in src e x\<close>: the \<open>e\<close>-th ancestor of \<open>x\<close> is a root, a
  group of \<open>src\<close> whose parent is \<open>INVALID_GROUP\<close>.  \<open>rooted src x\<close>: the chain of parent
  links of \<open>x\<close> inside \<open>src\<close> ends at a root.  \<open>orphan src x\<close>: the parent of \<open>x\<close> is
  neither \<open>INVALID_GROUP\<close> nor the index of a group of \<open>src\<close>.
\<close>

fun ancestor :: "Group list \<Rightarrow> nat \<Rightarrow> Group \<Rightarrow> Group \<Rightarrow> bool" where
  "ancestor src 0 a x = (x = a)"
| "ancestor src (Suc k) a x = (\<exists>q \<in> set src. index q = parent x \<and> ancestor src k a q)"

definition depth_in :: "Group list \<Rightarrow> nat \<Rightarrow> Group \<Rightarrow> bool" where
  "depth_in src e x = (\<exists>h \<in> set src. parent h = INVALID_GROUP \<and> ancestor src e h x)"

definition rooted :: "Group list \<Rightarrow> Group \<Rightarrow> bool" where
  "rooted src g = (\<exists>e \<in> set [0..<length src]. depth_in src e g)"

definition orphan :: "Group list \<Rightarrow> Group \<Rightarrow> bool" where
  "orphan src g = (parent g \<noteq> INVALID_GROUP \<and> parent g \<notin> set (map index src))"

text \<open>\<open>hangs src p d\<close>: a call \<open>AddChildren(source, p, d)\<close> is at the right depth, that is
  \<open>p\<close> is the sentinel and \<open>d = 0\<close>, or \<open>p\<close> is the index of a group of depth \<open>d - 1\<close>.\<close>

definition hangs :: "Group list \<Rightarrow> GroupID \<Rightarrow> nat \<Rightarrow> bool" where
  "hangs src p d = ((p = INVALID_GROUP \<and> d = 0) \<or>
                    (\<exists>q \<in> set src. index q = p \<and> (\<exists>e. d = Suc e \<and> depth_in src e q)))"

subsection \<open>Layout and order of rows\<close>

text \<open>
  \<open>pre_ok p d out\<close> is the layout of a preorder listing below \<open>p\<close>: every row is a
  child of \<open>p\<close> at indent \<open>d\<close>, or it has an earlier row that is its parent, one indent
  less, with no row of smaller indent in between.
\<close>

definition pre_ok :: "GroupID \<Rightarrow> nat \<Rightarrow> (Group \<times> nat) list \<Rightarrow> bool" where
  "pre_ok p d out =
    (\<forall>i < length out.
       (parent (fst (out ! i)) = p \<and> snd (out ! i) = d) \<or>
       (\<exists>j < i. index (fst (out ! j)) = parent (fst (out ! i)) \<and>
                snd (out ! i) = Suc (snd (out ! j)) \<and>
                (\<forall>k. j < k \<and> k < i \<longrightarrow> snd (out ! i) \<le> snd (out ! k))))"




subsection \<open>The items and the selected result of the dropdown\<close>

text \<open>The two components \<open>ShowColourDropDownMenu\<close> returns, as functions of the livery
  shown and the livery it falls back to.\<close>

definition dropdown_items ::
  "Company list \<Rightarrow> CompanyID \<Rightarrow> bool \<Rightarrow> SelectCompanyLiveryWindow \<Rightarrow> Livery option \<Rightarrow> (int \<times> bool) list" where
  "dropdown_items companies lcomp primary w dl =
     (case dl of None \<Rightarrow> []
      | Some d \<Rightarrow> [(uint ((if primary then colour1 d else colour2 d) + of_nat COLOUR_END), False)])
     @ map (\<lambda>i. (int i,
              HasBit (if scheme_class (livery_class w) \<and> HasBit (sel w) LS_DEFAULT \<and> primary
                      then used_colours_of companies lcomp else 0) i)) [0..<COLOUR_END]"

definition dropdown_selected :: "bool \<Rightarrow> Livery \<Rightarrow> Livery option \<Rightarrow> int" where
  "dropdown_selected primary liv dl =
     (case dl of
        None \<Rightarrow> uint (if primary then colour1 liv else colour2 liv)
      | Some d \<Rightarrow>
          (if HasBit8 (in_use liv) (if primary then 0 else 1)
           then uint (if primary then colour1 liv else colour2 liv)
           else uint ((if primary then colour1 d else colour2 d) + of_nat COLOUR_END)))"

section \<open>Concrete inputs\<close>

text \<open>Small pools, names and comparisons on which the theorems are instantiated.\<close>

definition no_livery :: Livery where
  "no_livery = \<lparr>in_use = 0, colour1 = 0, colour2 = 0\<rparr>"

definition mk_group :: "GroupID \<Rightarrow> GroupID \<Rightarrow> Group" where
  "mk_group i p = \<lparr>index = i, parent = p, owner = 0, vehicle_type = 0, livery = no_livery\<rparr>"

text \<open>Two roots and a child of the second; a root, an orphan and a child of the orphan;
  a root and two groups that are each other's parent.\<close>

definition scenario_pool :: "Group list" where
  "scenario_pool = [mk_group 0 INVALID_GROUP, mk_group 1 INVALID_GROUP, mk_group 2 1]"

definition orphan_pool :: "Group list" where
  "orphan_pool = [mk_group 0 INVALID_GROUP, mk_group 1 7, mk_group 2 1]"

definition cycle_pool :: "Group list" where
  "cycle_pool = [mk_group 0 INVALID_GROUP, mk_group 1 2, mk_group 2 1]"

definition example_names :: "GroupID \<Rightarrow> string" where
  "example_names i = (if i = 0 then ''Zeta'' else if i = 1 then ''Alpha'' else ''Mid'')"

text \<open>
  Modelled from the spec: \<open>strnatcmp\<close> (string.cpp) is not among the sources.  The spec
  has it compare case-insensitively, with runs of digits compared as numeric magnitude.
  \<open>natural_order\<close> splits both names into numbers and lower-cased characters and
  compares the two sequences item by item.  It is used on concrete names only; the
  theorems take the comparison as a parameter.
\<close>

datatype name_token = Number nat | Letter nat

definition is_digit :: "char \<Rightarrow> bool" where
  "is_digit c = (48 \<le> (of_char c :: nat) \<and> (of_char c :: nat) \<le> 57)"

definition lower_code :: "char \<Rightarrow> nat" where
  "lower_code c =
     (if 65 \<le> (of_char c :: nat) \<and> (of_char c :: nat) \<le> 90 then of_char c + 32 else of_char c)"

fun name_tokens :: "nat option \<Rightarrow> string \<Rightarrow> name_token list" where
  "name_tokens None [] = []"
| "name_tokens (Some n) [] = [Number n]"
| "name_tokens acc (c # cs) =
     (if is_digit c
      then name_tokens (Some (10 * (case acc of None \<Rightarrow> 0 | Some n \<Rightarrow> n) + (of_char c - 48))) cs
      else (case acc of None \<Rightarrow> [] | Some n \<Rightarrow> [Number n])
           @ Letter (lower_code c) # name_tokens None cs)"

fun compare_token :: "name_token \<Rightarrow> name_token \<Rightarrow> int" where
  "compare_token (Number n) (Number m) = (if n < m then - 1 else if m < n then 1 else 0)"
| "compare_token (Letter a) (Letter b) = (if a < b then - 1 else if b < a then 1 else 0)"
| "compare_token (Number n) (Letter b) = (if b < 48 then 1 else - 1)"
| "compare_token (Letter a) (Number m) = (if a < 48 then - 1 else 1)"

fun compare_tokens :: "name_token list \<Rightarrow> name_token list \<Rightarrow> int" where
  "compare_tokens [] [] = 0"
| "compare_tokens [] (b # bs) = - 1"
| "compare_tokens (a # as) [] = 1"
| "compare_tokens (a # as) (b # bs) =
     (if compare_token a b = 0 then compare_tokens as bs else compare_token a b)"

definition natural_order :: "string \<Rightarrow> string \<Rightarrow> int" where
  "natural_order a b = compare_tokens (name_tokens None a) (name_tokens None b)"

text \<open>A second comparison, by length, and names with numbers: three roots of which the
  last two have names that compare equal.\<close>

definition by_length :: "string \<Rightarrow> string \<Rightarrow> int" where
  "by_length a b = int (length a) - int (length b)"





definition group_window :: SelectCompanyLiveryWindow where
  "group_window = \<lparr>sel = 0, livery_class = LC_GROUP_RAIL, rows = 0, groups = [], indents = [],
                    need_rebuild = True, window_number = 0\<rparr>"

text \<open>Two companies, red with colour 4 and blue with colour 8, and windows of company 1
  (general class with the default scheme selected, rail class with scheme 1 selected) and
  of company 0 (rail groups, group 1 selected).\<close>

definition mk_company :: "CompanyID \<Rightarrow> byte \<Rightarrow> Livery \<Rightarrow> Company" where
  "mk_company i col liv = \<lparr>cindex = i, colour = col, clivery = (\<lambda>scheme. liv)\<rparr>"

definition red_company :: Company where
  "red_company = mk_company 0 4 \<lparr>in_use = 0, colour1 = 4, colour2 = 4\<rparr>"

definition blue_company :: Company where
  "blue_company = mk_company 1 8 \<lparr>in_use = 0, colour1 = 8, colour2 = 5\<rparr>"

definition scheme_window :: SelectCompanyLiveryWindow where
  "scheme_window = \<lparr>sel = 1, livery_class = LC_OTHER, rows = 1, groups = [], indents = [],
                     need_rebuild = False, window_number = 1\<rparr>"

definition rail_window :: SelectCompanyLiveryWindow where
  "rail_window = \<lparr>sel = 2, livery_class = LC_RAIL, rows = 2, groups = [], indents = [],
                   need_rebuild = False, window_number = 1\<rparr>"

definition orphan_window :: SelectCompanyLiveryWindow where
  "orphan_window = \<lparr>sel = 1, livery_class = LC_GROUP_RAIL, rows = 3, groups = [], indents = [],
                     need_rebuild = False, window_number = 0\<rparr>"

section \<open>The loop of the source and the rows it appends\<close>

lemma push_rows_Nil: "push_rows [] w = w"
  by (simp add: push_rows_def)

lemma push_rows_append: "push_rows (xs @ ys) w = push_rows ys (push_rows xs w)"
  by (simp add: push_rows_def)

lemma AddChildren_loop_emit:
  "AddChildren_loop fuel source rest p (int d) w = map_option (\<lambda>out. push_rows out w) (emit fuel source rest p d)"
proof (induction fuel source rest p d arbitrary: w rule: emit.induct)
  case (1 fuel source p d)
  show ?case by (simp add: push_rows_Nil)
next
  case (2 fuel source g rest p d)
  show ?case
  proof (cases "parent g = p")
    case False
    then show ?thesis using 2(1) by simp
  next
    case True
    show ?thesis
    proof (cases fuel)
      case 0
      then show ?thesis using True by simp
    next
      case (Suc n)
      have a: "int d + 1 = int (Suc d)" by simp
      show ?thesis
      proof (cases "emit n source source (index g) (Suc d)")
        case None
        then show ?thesis using True Suc 2(2)[OF _ Suc] by (simp add: a del: of_nat_Suc)
      next
        case (Some sub)
        have b: "push_rows sub (w\<lparr>groups := groups w @ [g], indents := indents w @ [int d]\<rparr>) = push_rows ((g, d) # sub) w"
          by (simp add: push_rows_def)
        show ?thesis 
          using True Suc Some 2(2)[OF _ Suc] 2(3)[OF _ Suc Some]
          apply (simp add: a del: of_nat_Suc)
          apply (cases "emit (Suc n) source rest p d")
           apply simp
          apply (simp add: b)
          apply (simp add: push_rows_def)
          done
      qed
    qed
  qed
qed

lemma index_inj: "distinct (map index src) \<Longrightarrow> a \<in> set src \<Longrightarrow> b \<in> set src \<Longrightarrow> index a = index b \<Longrightarrow> a = b"
  by (meson distinct_map inj_onD)

lemma index_valid: "pool_ok src \<Longrightarrow> q \<in> set src \<Longrightarrow> index q \<noteq> INVALID_GROUP"
  unfolding pool_ok_def by (metis imageI set_map)

lemma desc_unique:
  "distinct (map index src) \<Longrightarrow> ancestor src k a x \<Longrightarrow> ancestor src k b x \<Longrightarrow> a = b"
proof (induction k arbitrary: x)
  case 0
  then show ?case by simp
next
  case (Suc k)
  from Suc.prems obtain q where q: "q \<in> set src" "index q = parent x" "ancestor src k a q" by auto
  from Suc.prems obtain q' where q': "q' \<in> set src" "index q' = parent x" "ancestor src k b q'" by auto
  have "q = q'" using index_inj[OF Suc.prems(1) q(1) q'(1)] q(2) q'(2) by simp
  then show ?case using Suc.IH[OF Suc.prems(1) q(3)] q'(3) by simp
qed

lemma desc_top:
  "ancestor src k a x \<Longrightarrow> b \<in> set src \<Longrightarrow> index b = parent a \<Longrightarrow> ancestor src (Suc k) b x"
proof (induction k arbitrary: x)
  case 0
  then show ?case by auto
next
  case (Suc k)
  from Suc.prems obtain q where q: "q \<in> set src" "index q = parent x" "ancestor src k a q" by auto
  have "ancestor src (Suc k) b q" using Suc.IH[OF q(3) Suc.prems(2,3)] .
  then show ?case using q(1,2) by (auto simp del: ancestor.simps(2) simp add: ancestor.simps(2)[of src "Suc k"])
qed

lemma desc_trans:
  "ancestor src m q x \<Longrightarrow> ancestor src k a q \<Longrightarrow> ancestor src (m + k) a x"
proof (induction m arbitrary: x)
  case 0
  then show ?case by simp
next
  case (Suc m)
  from Suc.prems obtain r where r: "r \<in> set src" "index r = parent x" "ancestor src m q r" by auto
  have "ancestor src (m + k) a r" using Suc.IH[OF r(3) Suc.prems(2)] .
  then show ?case using r(1,2) by auto
qed

lemma depth_unique:
  assumes ok: "pool_ok src"
  shows "depth_in src e x \<Longrightarrow> depth_in src e' x \<Longrightarrow> e = e'"
proof (induction e arbitrary: e' x)
  case 0
  then have px: "parent x = INVALID_GROUP" by (auto simp: depth_in_def)
  show ?case
  proof (cases e')
    case 0
    then show ?thesis by simp
  next
    case (Suc m)
    with 0(2) obtain q where "q \<in> set src" "index q = parent x" by (auto simp: depth_in_def)
    with px index_valid[OF ok] show ?thesis by metis
  qed
next
  case (Suc e)
  from Suc.prems(1) obtain q where q: "q \<in> set src" "index q = parent x" "depth_in src e q"
    by (auto simp: depth_in_def)
  show ?case
  proof (cases e')
    case 0
    with Suc.prems(2) have "parent x = INVALID_GROUP" by (auto simp: depth_in_def)
    with q(1,2) index_valid[OF ok] show ?thesis by metis
  next
    case (Suc m)
    with Suc.prems(2) obtain q' where q': "q' \<in> set src" "index q' = parent x" "depth_in src m q'"
      by (auto simp: depth_in_def)
    have "q = q'" using index_inj[OF _ q(1) q'(1)] ok q(2) q'(2) by (simp add: pool_ok_def)
    then have "e = m" using Suc.IH[OF q(3)] q'(3) by simp
    then show ?thesis using Suc by simp
  qed
qed

lemma depth_child:
  "depth_in src e q \<Longrightarrow> q \<in> set src \<Longrightarrow> parent x = index q \<Longrightarrow> depth_in src (Suc e) x"
  by (auto simp: depth_in_def)

lemma depth_root: "x \<in> set src \<Longrightarrow> parent x = INVALID_GROUP \<Longrightarrow> depth_in src 0 x"
  by (auto simp: depth_in_def)

lemma depth_desc: "depth_in src d h \<Longrightarrow> ancestor src m h x \<Longrightarrow> depth_in src (m + d) x"
  by (auto simp: depth_in_def intro: desc_trans)

text \<open>A group of depth \<open>e\<close> has an ancestor at every smaller depth, and depths are
  unique: the depth is below the number of groups.\<close>

lemma depth_levels:
  "depth_in src e x \<Longrightarrow> x \<in> set src \<Longrightarrow> k \<le> e \<Longrightarrow> \<exists>a \<in> set src. depth_in src k a"
proof (induction e arbitrary: x)
  case 0
  then show ?case by auto
next
  case (Suc e)
  show ?case
  proof (cases "k = Suc e")
    case True
    then show ?thesis using Suc.prems by auto
  next
    case False
    from Suc.prems(1) obtain q where q: "q \<in> set src" "depth_in src e q"
      by (auto simp: depth_in_def)
    show ?thesis using Suc.IH[OF q(2) q(1)] False Suc.prems(3) by simp
  qed
qed

lemma depth_bound:
  assumes ok: "pool_ok src" and d: "depth_in src e x" and x: "x \<in> set src"
  shows "e < length src"
proof -
  define f where "f k = (SOME a. a \<in> set src \<and> depth_in src k a)" for k
  have f: "f k \<in> set src \<and> depth_in src k (f k)" if "k \<le> e" for k
  proof -
    from depth_levels[OF d x that] obtain a where "a \<in> set src \<and> depth_in src k a" by auto
    then show ?thesis unfolding f_def by (rule someI)
  qed
  have inj: "inj_on f {..e}"
  proof (rule inj_onI)
    fix k k' assume "k \<in> {..e}" "k' \<in> {..e}" "f k = f k'"
    then show "k = k'" using f[of k] f[of k'] depth_unique[OF ok, of k "f k" k'] by auto
  qed
  have "f ` {..e} \<subseteq> set src" using f by auto
  then have "card (f ` {..e}) \<le> card (set src)" by (simp add: card_mono)
  then have "Suc e \<le> card (set src)" using card_image[OF inj] by simp
  also have "\<dots> \<le> length src" by (rule card_length)
  finally show ?thesis by simp
qed

lemma emit_Cons_Some:
  assumes "emit fuel source (g # rest) p d = Some out" and "parent g = p"
  obtains n sub r where "fuel = Suc n" "emit n source source (index g) (Suc d) = Some sub"
    "emit (Suc n) source rest p d = Some r" "out = (g, d) # sub @ r"
  using assms by (auto split: nat.splits option.splits)

subsection \<open>What the loop emits\<close>

text \<open>Every row is a group of the source.\<close>

lemma emit_subset:
  "emit fuel source rest p d = Some out \<Longrightarrow> set rest \<subseteq> set source \<Longrightarrow> fst ` set out \<subseteq> set source"
proof (induction fuel source rest p d arbitrary: out rule: emit.induct)
  case (1 fuel source p d)
  then show ?case by simp
next
  case (2 fuel source g rest p d)
  note ih = "2.IH" and pr = "2.prems"
  show ?case
  proof (cases "parent g = p")
    case False
    then show ?thesis using ih(1)[OF False] pr by simp
  next
    case True
    then have nn: "\<not> parent g \<noteq> p" by simp
    from emit_Cons_Some[OF pr(1) True] obtain n sub r where
      s: "fuel = Suc n" "emit n source source (index g) (Suc d) = Some sub"
         "emit (Suc n) source rest p d = Some r" "out = (g, d) # sub @ r" by blast
    have a: "fst ` set sub \<subseteq> set source" using ih(2)[OF nn s(1) s(2)] by simp
    have b: "fst ` set r \<subseteq> set source" using ih(3)[OF nn s(1) s(2) s(3)] pr(2) by simp
    show ?thesis using a b s(4) pr(2) by auto
  qed
qed

text \<open>Every row descends from a child of \<open>p\<close> met by the loop, at the matching indent.\<close>

lemma emit_anc:
  "emit fuel source rest p d = Some out \<Longrightarrow> set rest \<subseteq> set source \<Longrightarrow> (x, e) \<in> set out \<Longrightarrow>
   \<exists>h \<in> set rest. parent h = p \<and> d \<le> e \<and> e < d + fuel \<and> ancestor source (e - d) h x"
proof (induction fuel source rest p d arbitrary: out rule: emit.induct)
  case (1 fuel source p d)
  then show ?case by simp
next
  case (2 fuel source g rest p d)
  note ih = "2.IH" and pr = "2.prems"
  show ?case
  proof (cases "parent g = p")
    case False
    have "emit fuel source rest p d = Some out" using pr(1) False by simp
    from ih(1)[OF False this _ pr(3)] pr(2) show ?thesis by auto
  next
    case True
    then have nn: "\<not> parent g \<noteq> p" by simp
    from emit_Cons_Some[OF pr(1) True] obtain n sub r where
      s: "fuel = Suc n" "emit n source source (index g) (Suc d) = Some sub"
         "emit (Suc n) source rest p d = Some r" "out = (g, d) # sub @ r" by blast
    have gs: "g \<in> set source" using pr(2) by simp
    consider (a) "(x, e) = (g, d)" | (b) "(x, e) \<in> set sub" | (c) "(x, e) \<in> set r"
      using pr(3) s(4) by auto
    then show ?thesis
    proof cases
      case a
      then show ?thesis using True s(1) by auto
    next
      case b
      from ih(2)[OF nn s(1) s(2) _ b] obtain h where
        h: "h \<in> set source" "parent h = index g" "Suc d \<le> e" "e < Suc d + n" "ancestor source (e - Suc d) h x"
        by auto
      have "ancestor source (Suc (e - Suc d)) g x" using desc_top[OF h(5) gs] h(2) by simp
      moreover have "Suc (e - Suc d) = e - d" using h(3) by simp
      ultimately have "ancestor source (e - d) g x" by simp
      then show ?thesis using True h(3,4) s(1) by auto
    next
      case c
      from ih(3)[OF nn s(1) s(2) s(3) _ c] pr(2) obtain h where
        "h \<in> set rest" "parent h = p" "d \<le> e" "e < d + Suc n" "ancestor source (e - d) h x" by auto
      then show ?thesis using s(1) by auto
    qed
  qed
qed

text \<open>All children of \<open>p\<close> met by the loop are emitted.\<close>

lemma emit_children:
  "emit fuel source rest p d = Some out \<Longrightarrow> h \<in> set rest \<Longrightarrow> parent h = p \<Longrightarrow> (h, d) \<in> set out"
proof (induction fuel source rest p d arbitrary: out rule: emit.induct)
  case (1 fuel source p d)
  then show ?case by simp
next
  case (2 fuel source g rest p d)
  note ih = "2.IH" and pr = "2.prems"
  show ?case
  proof (cases "parent g = p")
    case False
    have "emit fuel source rest p d = Some out" using pr(1) False by simp
    moreover have "h \<in> set rest" using pr(2,3) False by auto
    ultimately show ?thesis using ih(1)[OF False] pr(3) by simp
  next
    case True
    then have nn: "\<not> parent g \<noteq> p" by simp
    from emit_Cons_Some[OF pr(1) True] obtain n sub r where
      s: "fuel = Suc n" "emit n source source (index g) (Suc d) = Some sub"
         "emit (Suc n) source rest p d = Some r" "out = (g, d) # sub @ r" by blast
    show ?thesis
    proof (cases "h = g")
      case True
      then show ?thesis using s(4) by simp
    next
      case False
      then have "h \<in> set rest" using pr(2) by simp
      then have "(h, d) \<in> set r" using ih(3)[OF nn s(1) s(2) s(3) _ pr(3)] by simp
      then show ?thesis using s(4) by simp
    qed
  qed
qed

text \<open>The children of an emitted group are emitted.\<close>

lemma emit_closed:
  "emit fuel source rest p d = Some out \<Longrightarrow> (q, e) \<in> set out \<Longrightarrow> h \<in> set source \<Longrightarrow>
   parent h = index q \<Longrightarrow> (h, Suc e) \<in> set out"
proof (induction fuel source rest p d arbitrary: out rule: emit.induct)
  case (1 fuel source p d)
  then show ?case by simp
next
  case (2 fuel source g rest p d)
  note ih = "2.IH" and pr = "2.prems"
  show ?case
  proof (cases "parent g = p")
    case False
    have "emit fuel source rest p d = Some out" using pr(1) False by simp
    from ih(1)[OF False this pr(2,3,4)] show ?thesis .
  next
    case True
    then have nn: "\<not> parent g \<noteq> p" by simp
    from emit_Cons_Some[OF pr(1) True] obtain n sub r where
      s: "fuel = Suc n" "emit n source source (index g) (Suc d) = Some sub"
         "emit (Suc n) source rest p d = Some r" "out = (g, d) # sub @ r" by blast
    consider (a) "(q, e) = (g, d)" | (b) "(q, e) \<in> set sub" | (c) "(q, e) \<in> set r"
      using pr(2) s(4) by auto
    then show ?thesis
    proof cases
      case a
      then have "(h, Suc e) \<in> set sub" using emit_children[OF s(2) pr(3)] pr(4) by simp
      then show ?thesis using s(4) by simp
    next
      case b
      have "(h, Suc e) \<in> set sub" using ih(2)[OF nn s(1) s(2) b pr(3,4)] .
      then show ?thesis using s(4) by simp
    next
      case c
      have "(h, Suc e) \<in> set r" using ih(3)[OF nn s(1) s(2) s(3) c pr(3,4)] .
      then show ?thesis using s(4) by simp
    qed
  qed
qed

text \<open>More fuel does not change a result.\<close>

lemma emit_mono:
  "emit fuel source rest p d = Some out \<Longrightarrow> fuel \<le> fuel' \<Longrightarrow> emit fuel' source rest p d = Some out"
proof (induction fuel source rest p d arbitrary: out fuel' rule: emit.induct)
  case (1 fuel source p d)
  then show ?case by simp
next
  case (2 fuel source g rest p d)
  note ih = "2.IH" and pr = "2.prems"
  show ?case
  proof (cases "parent g = p")
    case False
    have "emit fuel source rest p d = Some out" using pr(1) False by simp
    from ih(1)[OF False this pr(2)] False show ?thesis by simp
  next
    case True
    then have nn: "\<not> parent g \<noteq> p" by simp
    from emit_Cons_Some[OF pr(1) True] obtain n sub r where
      s: "fuel = Suc n" "emit n source source (index g) (Suc d) = Some sub"
         "emit (Suc n) source rest p d = Some r" "out = (g, d) # sub @ r" by blast
    from pr(2) s(1) obtain n' where n': "fuel' = Suc n'" "n \<le> n'" by (cases fuel') auto
    have a: "emit n' source source (index g) (Suc d) = Some sub"
      using ih(2)[OF nn s(1) s(2) n'(2)] .
    have b: "emit fuel' source rest p d = Some r"
      using ih(3)[OF nn s(1) s(2) s(3)] pr(2) s(1) by simp
    show ?thesis using True n'(1) a b s(4) by simp
  qed
qed

lemma hangs_root: "hangs src INVALID_GROUP 0"
  by (simp add: hangs_def)

lemma child_depth:
  assumes "pool_ok src" "hangs src p d" "g \<in> set src" "parent g = p"
  shows "depth_in src d g"
proof -
  from assms(2) consider (a) "p = INVALID_GROUP" "d = 0"
    | (b) q e where "q \<in> set src" "index q = p" "d = Suc e" "depth_in src e q"
    by (auto simp: hangs_def)
  then show ?thesis
  proof cases
    case a
    then show ?thesis using depth_root[OF assms(3)] assms(4) by simp
  next
    case b
    then show ?thesis using depth_child[OF b(4) b(1)] assms(4) by simp
  qed
qed

lemma hangs_child: "depth_in src d g \<Longrightarrow> g \<in> set src \<Longrightarrow> hangs src (index g) (Suc d)"
  by (auto simp: hangs_def)

lemma emit_terminates:
  "pool_ok source \<Longrightarrow> hangs source p d \<Longrightarrow> length source \<le> d + fuel \<Longrightarrow> set rest \<subseteq> set source \<Longrightarrow>
   \<exists>out. emit fuel source rest p d = Some out"
proof (induction fuel source rest p d rule: emit.induct)
  case (1 fuel source p d)
  then show ?case by simp
next
  case (2 fuel source g rest p d)
  note ih = "2.IH" and pr = "2.prems"
  have rs: "set rest \<subseteq> set source" and gs: "g \<in> set source" using pr(4) by auto
  show ?case
  proof (cases "parent g = p")
    case False
    from ih(1)[OF False pr(1,2,3) rs] False show ?thesis by simp
  next
    case True
    then have nn: "\<not> parent g \<noteq> p" by simp
    have dg: "depth_in source d g" using child_depth[OF pr(1,2) gs True] .
    have "d < length source" using depth_bound[OF pr(1) dg gs] .
    then obtain n where n: "fuel = Suc n" using pr(3) by (cases fuel) auto
    have "length source \<le> Suc d + n" using pr(3) n by simp
    from ih(2)[OF nn n pr(1) hangs_child[OF dg gs] this] obtain sub where
      sub: "emit n source source (index g) (Suc d) = Some sub" by auto
    have "length source \<le> d + Suc n" using pr(3) n by simp
    from ih(3)[OF nn n sub pr(1,2) this rs] obtain r where
      r: "emit (Suc n) source rest p d = Some r" by auto
    show ?thesis using True n sub r by simp
  qed
qed

lemma emit_depth:
  assumes "pool_ok source" "hangs source p d" "set rest \<subseteq> set source"
    "emit fuel source rest p d = Some out" "(x, e) \<in> set out"
  obtains h where "h \<in> set rest" "parent h = p" "d \<le> e" "ancestor source (e - d) h x"
    "depth_in source d h" "depth_in source e x"
proof -
  from emit_anc[OF assms(4,3,5)] obtain h where
    h: "h \<in> set rest" "parent h = p" "d \<le> e" "ancestor source (e - d) h x" by auto
  have hs: "h \<in> set source" using h(1) assms(3) by auto
  have dh: "depth_in source d h" using child_depth[OF assms(1,2) hs h(2)] .
  have "depth_in source ((e - d) + d) x" using depth_desc[OF dh h(4)] .
  then have "depth_in source e x" using h(3) by simp
  then show ?thesis using that h dh by blast
qed

lemma pool_distinct: "pool_ok src \<Longrightarrow> distinct src"
  by (simp add: pool_ok_def distinct_map)

lemma emit_distinct:
  "pool_ok source \<Longrightarrow> hangs source p d \<Longrightarrow> \<exists>pre. source = pre @ rest \<Longrightarrow>
   emit fuel source rest p d = Some out \<Longrightarrow> distinct (map fst out)"
proof (induction fuel source rest p d arbitrary: out rule: emit.induct)
  case (1 fuel source p d)
  then show ?case by simp
next
  case (2 fuel source g rest p d)
  note ih = "2.IH" and pr = "2.prems"
  from pr(3) obtain pre where pre: "source = pre @ g # rest" by auto
  have suf: "\<exists>pre'. source = pre' @ rest" using pre by (intro exI[of _ "pre @ [g]"]) simp
  have rs: "set rest \<subseteq> set source" and gs: "g \<in> set source" using pre by auto
  have gr: "g \<notin> set rest" using pool_distinct[OF pr(1)] pre by simp
  have di: "distinct (map index source)" using pr(1) by (simp add: pool_ok_def)
  show ?case
  proof (cases "parent g = p")
    case False
    have "emit fuel source rest p d = Some out" using pr(4) False by simp
    from ih(1)[OF False pr(1,2) suf this] show ?thesis .
  next
    case True
    then have nn: "\<not> parent g \<noteq> p" by simp
    from emit_Cons_Some[OF pr(4) True] obtain n sub r where
      s: "fuel = Suc n" "emit n source source (index g) (Suc d) = Some sub"
         "emit (Suc n) source rest p d = Some r" "out = (g, d) # sub @ r" by blast
    have dg: "depth_in source d g" using child_depth[OF pr(1,2) gs True] .
    have hg: "hangs source (index g) (Suc d)" using hangs_child[OF dg gs] .
    have self: "\<exists>pre'. source = pre' @ source" by (intro exI[of _ "[]"]) simp
    have d1: "distinct (map fst sub)" using ih(2)[OF nn s(1) pr(1) hg self s(2)] .
    have d2: "distinct (map fst r)" using ih(3)[OF nn s(1) s(2) pr(1,2) suf s(3)] .
    have a: "g \<notin> fst ` set sub"
    proof
      assume "g \<in> fst ` set sub"
      then obtain e where e: "(g, e) \<in> set sub" by auto
      from emit_depth[OF pr(1) hg subset_refl s(2) e] obtain h where
        h: "Suc d \<le> e" "depth_in source e g" by blast
      have "e = d" using depth_unique[OF pr(1) h(2) dg] .
      then show False using h(1) by simp
    qed
    have b: "g \<notin> fst ` set r"
    proof
      assume "g \<in> fst ` set r"
      then obtain e where e: "(g, e) \<in> set r" by auto
      from emit_depth[OF pr(1,2) rs s(3) e] obtain h where
        h: "h \<in> set rest" "d \<le> e" "ancestor source (e - d) h g" "depth_in source e g" by blast
      have "e = d" using depth_unique[OF pr(1) h(4) dg] .
      then have "g = h" using h(3) by simp
      then show False using h(1) gr by simp
    qed
    have c: "fst ` set sub \<inter> fst ` set r = {}"
    proof (rule ccontr)
      assume "fst ` set sub \<inter> fst ` set r \<noteq> {}"
      then obtain x e e' where x: "(x, e) \<in> set sub" "(x, e') \<in> set r" by fastforce
      from emit_depth[OF pr(1) hg subset_refl s(2) x(1)] obtain h where
        h: "h \<in> set source" "parent h = index g" "Suc d \<le> e" "ancestor source (e - Suc d) h x"
           "depth_in source e x" by blast
      from emit_depth[OF pr(1,2) rs s(3) x(2)] obtain h' where
        h': "h' \<in> set rest" "d \<le> e'" "ancestor source (e' - d) h' x" "depth_in source e' x" by blast
      have ee: "e = e'" using depth_unique[OF pr(1) h(5) h'(4)] .
      have "ancestor source (Suc (e - Suc d)) g x" using desc_top[OF h(4) gs] h(2) by simp
      moreover have "Suc (e - Suc d) = e - d" using h(3) by simp
      ultimately have "ancestor source (e - d) g x" by simp
      then have "g = h'" using desc_unique[OF di _ h'(3)] ee by simp
      then show False using h'(1) gr by simp
    qed
    show ?thesis using s(4) d1 d2 a b c by simp
  qed
qed



lemma pre_ok_Nil: "pre_ok p d []"
  by (simp add: pre_ok_def)

lemma pre_ok_step:
  assumes pg: "parent g = p"
    and sub: "pre_ok (index g) (Suc d) sub"
    and lb: "\<forall>a \<in> set sub. Suc d \<le> snd a"
    and r: "pre_ok p d r"
  shows "pre_ok p d ((g, d) # sub @ r)"
  unfolding pre_ok_def
proof (intro allI impI)
  fix i
  let ?out = "(g, d) # sub @ r"
  assume i: "i < length ?out"
  let ?G = "\<lambda>i. (parent (fst (?out ! i)) = p \<and> snd (?out ! i) = d) \<or>
       (\<exists>j < i. index (fst (?out ! j)) = parent (fst (?out ! i)) \<and>
                snd (?out ! i) = Suc (snd (?out ! j)) \<and>
                (\<forall>k. j < k \<and> k < i \<longrightarrow> snd (?out ! i) \<le> snd (?out ! k)))"
  consider (z) "i = 0" | (s) "0 < i" "i \<le> length sub" | (t) "length sub < i" by linarith
  then show "?G i"
  proof cases
    case z
    then show ?thesis using pg by simp
  next
    case s
    define i' where "i' = i - 1"
    have i': "i' < length sub" "i = Suc i'" using s by (auto simp: i'_def)
    have oi: "?out ! i = sub ! i'" using i' by (simp add: nth_append)
    have osub: "?out ! Suc k = sub ! k" if "k < length sub" for k using that by (simp add: nth_append)
    from sub[unfolded pre_ok_def, rule_format, OF i'(1)]
    consider (a) "parent (fst (sub ! i')) = index g" "snd (sub ! i') = Suc d"
      | (b) j where "j < i'" "index (fst (sub ! j)) = parent (fst (sub ! i'))"
          "snd (sub ! i') = Suc (snd (sub ! j))" "\<forall>k. j < k \<and> k < i' \<longrightarrow> snd (sub ! i') \<le> snd (sub ! k)"
      by blast
    then show ?thesis
    proof cases
      case a
      have "\<forall>k. 0 < k \<and> k < i \<longrightarrow> snd (?out ! i) \<le> snd (?out ! k)"
      proof (intro allI impI)
        fix k assume k: "0 < k \<and> k < i"
        then obtain k' where k': "k = Suc k'" "k' < length sub" using i' by (cases k) auto
        have "sub ! k' \<in> set sub" using k'(2) by simp
        then show "snd (?out ! i) \<le> snd (?out ! k)" using lb a(2) oi osub[OF k'(2)] k'(1) by auto
      qed
      moreover have "0 < i" using s by simp
      moreover have "index (fst (?out ! 0)) = parent (fst (?out ! i))" using a(1) oi by simp
      moreover have "snd (?out ! i) = Suc (snd (?out ! 0))" using a(2) oi by simp
      ultimately show ?thesis by blast
    next
      case b
      have jl: "j < length sub" using b(1) i'(1) by simp
      have "\<forall>k. Suc j < k \<and> k < i \<longrightarrow> snd (?out ! i) \<le> snd (?out ! k)"
      proof (intro allI impI)
        fix k assume k: "Suc j < k \<and> k < i"
        then obtain k' where k': "k = Suc k'" "j < k'" "k' < i'" using i' by (cases k) auto
        have "k' < length sub" using k'(3) i'(1) by simp
        then show "snd (?out ! i) \<le> snd (?out ! k)" using b(4) k' oi osub[of k'] by auto
      qed
      moreover have "Suc j < i" using b(1) i'(2) by simp
      moreover have "index (fst (?out ! Suc j)) = parent (fst (?out ! i))" using b(2) oi osub[OF jl] by simp
      moreover have "snd (?out ! i) = Suc (snd (?out ! Suc j))" using b(3) oi osub[OF jl] by simp
      ultimately show ?thesis by blast
    qed
  next
    case t
    define i' where "i' = i - Suc (length sub)"
    have i': "i' < length r" "i = Suc (length sub) + i'" using t i by (auto simp: i'_def)
    have orr: "?out ! (Suc (length sub) + k) = r ! k" for k by (simp add: nth_append)
    have oi: "?out ! i = r ! i'" using i'(2) orr by simp
    from r[unfolded pre_ok_def, rule_format, OF i'(1)]
    consider (a) "parent (fst (r ! i')) = p" "snd (r ! i') = d"
      | (b) j where "j < i'" "index (fst (r ! j)) = parent (fst (r ! i'))"
          "snd (r ! i') = Suc (snd (r ! j))" "\<forall>k. j < k \<and> k < i' \<longrightarrow> snd (r ! i') \<le> snd (r ! k)"
      by blast
    then show ?thesis
    proof cases
      case a
      then show ?thesis using oi by simp
    next
      case b
      let ?j = "Suc (length sub) + j"
      have "\<forall>k. ?j < k \<and> k < i \<longrightarrow> snd (?out ! i) \<le> snd (?out ! k)"
      proof (intro allI impI)
        fix k assume k: "?j < k \<and> k < i"
        define k' where "k' = k - Suc (length sub)"
        have k': "k = Suc (length sub) + k'" "j < k'" "k' < i'" using k i'(2) by (auto simp: k'_def)
        show "snd (?out ! i) \<le> snd (?out ! k)" using b(4) k'(2,3) oi orr[of k'] k'(1) by auto
      qed
      moreover have "?j < i" using b(1) i'(2) by simp
      moreover have "index (fst (?out ! ?j)) = parent (fst (?out ! i))" using b(2) oi orr[of j] by simp
      moreover have "snd (?out ! i) = Suc (snd (?out ! ?j))" using b(3) oi orr[of j] by simp
      ultimately show ?thesis by blast
    qed
  qed
qed

lemma emit_pre_ok:
  "emit fuel source rest p d = Some out \<Longrightarrow> set rest \<subseteq> set source \<Longrightarrow> pre_ok p d out"
proof (induction fuel source rest p d arbitrary: out rule: emit.induct)
  case (1 fuel source p d)
  then show ?case by (simp add: pre_ok_Nil)
next
  case (2 fuel source g rest p d)
  note ih = "2.IH" and pr = "2.prems"
  have rs: "set rest \<subseteq> set source" using pr(2) by simp
  show ?case
  proof (cases "parent g = p")
    case False
    have "emit fuel source rest p d = Some out" using pr(1) False by simp
    from ih(1)[OF False this rs] show ?thesis .
  next
    case True
    then have nn: "\<not> parent g \<noteq> p" by simp
    from emit_Cons_Some[OF pr(1) True] obtain n sub r where
      s: "fuel = Suc n" "emit n source source (index g) (Suc d) = Some sub"
         "emit (Suc n) source rest p d = Some r" "out = (g, d) # sub @ r" by blast
    have a: "pre_ok (index g) (Suc d) sub" using ih(2)[OF nn s(1) s(2)] by simp
    have b: "pre_ok p d r" using ih(3)[OF nn s(1) s(2) s(3) rs] .
    have lb: "\<forall>a \<in> set sub. Suc d \<le> snd a"
    proof
      fix a assume "a \<in> set sub"
      then have "(fst a, snd a) \<in> set sub" by simp
      from emit_anc[OF s(2) subset_refl this] show "Suc d \<le> snd a" by auto
    qed
    show ?thesis unfolding s(4) using pre_ok_step[OF True a lb b] .
  qed
qed

lemma set_sort_insert: "set (sort_insert lt x ys) = insert x (set ys)"
  by (induction ys) auto

lemma length_sort_insert: "length (sort_insert lt x ys) = Suc (length ys)"
  by (induction ys) auto

lemma set_Sort: "set (Sort lt xs) = set xs"
  unfolding Sort_def by (induction xs) (auto simp: set_sort_insert)

lemma length_Sort: "length (Sort lt xs) = length xs"
  unfolding Sort_def by (induction xs) (auto simp: length_sort_insert)

lemma distinct_map_Sort:
  assumes "distinct (map f xs)"
  shows "distinct (map f (Sort lt xs))"
proof -
  have "card (set (map f (Sort lt xs))) = card (set (map f xs))" by (simp add: set_Sort)
  also have "\<dots> = length (map f xs)" using assms by (rule distinct_card)
  also have "\<dots> = length (map f (Sort lt xs))" by (simp add: length_Sort)
  finally show ?thesis by (rule card_distinct)
qed






lemma emit_Nil_source: "emit fuel [] [] p d = Some []"
  by simp

lemma BuildGroupList_emit:
  assumes "need_rebuild w"
  shows "BuildGroupList fuel cmp nm pool own w =
         map_option (rows_window w)
           (emit fuel (shown_source cmp nm pool own (livery_class w))
                      (shown_source cmp nm pool own (livery_class w)) INVALID_GROUP 0)"
proof (cases "scheme_class (livery_class w)")
  case True
  then show ?thesis using assms
    by (simp add: BuildGroupList_def shown_source_def rows_window_def)
next
  case False
  let ?src = "staging_list cmp nm pool own (class_vtype (livery_class w))"
  let ?w1 = "w\<lparr>groups := [], indents := []\<rparr>"
  have "AddChildren_loop fuel ?src ?src INVALID_GROUP (int 0) ?w1 =
        map_option (\<lambda>out. push_rows out ?w1) (emit fuel ?src ?src INVALID_GROUP 0)"
    by (rule AddChildren_loop_emit)
  then have a: "AddChildren fuel ?src INVALID_GROUP 0 ?w1 =
        map_option (\<lambda>out. push_rows out ?w1) (emit fuel ?src ?src INVALID_GROUP 0)"
    by (simp add: AddChildren_def)
  show ?thesis
  proof (cases "emit fuel ?src ?src INVALID_GROUP 0")
    case None
    then show ?thesis using assms False a
      by (simp add: BuildGroupList_def shown_source_def Let_def)
  next
    case (Some out)
    then show ?thesis using assms False a
      by (simp add: BuildGroupList_def shown_source_def Let_def rows_window_def push_rows_def)
  qed
qed

lemma staging_set: "set (staging_list cmp nm pool own vt) = {g \<in> set pool. group_filter own vt g}"
  by (auto simp: staging_list_def set_Sort)

lemma staging_length: "length (staging_list cmp nm pool own vt) = length (filter (group_filter own vt) pool)"
  by (simp add: staging_list_def length_Sort)

lemma pool_ok_filter: "pool_ok pool \<Longrightarrow> pool_ok (filter P pool)"
  by (auto simp: pool_ok_def distinct_map_filter)

lemma staging_ok: "pool_ok pool \<Longrightarrow> pool_ok (staging_list cmp nm pool own vt)"
proof -
  assume "pool_ok pool"
  then have f: "pool_ok (filter (group_filter own vt) pool)" by (rule pool_ok_filter)
  then have "distinct (map index (Sort (group_name_sorter cmp nm) (filter (group_filter own vt) pool)))"
    unfolding pool_ok_def by (intro distinct_map_Sort) simp
  moreover have "INVALID_GROUP \<notin> set (map index (Sort (group_name_sorter cmp nm) (filter (group_filter own vt) pool)))"
    using f unfolding pool_ok_def by (simp add: set_Sort)
  ultimately show ?thesis by (simp add: pool_ok_def staging_list_def)
qed

lemma shown_ok: "pool_ok pool \<Longrightarrow> pool_ok (shown_source cmp nm pool own lc)"
  by (simp add: shown_source_def staging_ok) (simp add: pool_ok_def)

lemma shown_length:
  "length (shown_source cmp nm pool own lc) \<le> length (filter (group_filter own (class_vtype lc)) pool)"
  by (simp add: shown_source_def staging_length)


lemma shown_set_group:
  "\<not> scheme_class lc \<Longrightarrow> set (shown_source cmp nm pool own lc) = set (filter (group_filter own (class_vtype lc)) pool)"
  by (simp add: shown_source_def staging_set)

text \<open>With fuel for as many nested calls as there are filtered groups, the rebuild returns.\<close>

lemma BuildGroupList_rows:
  assumes ok: "pool_ok pool" and nr: "need_rebuild w"
    and fu: "length (filter (group_filter own (class_vtype (livery_class w))) pool) \<le> fuel"
  obtains out where
    "emit fuel (shown_source cmp nm pool own (livery_class w))
               (shown_source cmp nm pool own (livery_class w)) INVALID_GROUP 0 = Some out"
    "BuildGroupList fuel cmp nm pool own w = Some (rows_window w out)"
proof -
  let ?src = "shown_source cmp nm pool own (livery_class w)"
  have "length ?src \<le> 0 + fuel" using shown_length[of cmp nm pool own "livery_class w"] fu by simp
  from emit_terminates[OF shown_ok[OF ok] hangs_root this subset_refl]
  obtain out where out: "emit fuel ?src ?src INVALID_GROUP 0 = Some out" by blast
  then have "BuildGroupList fuel cmp nm pool own w = Some (rows_window w out)"
    using BuildGroupList_emit[OF nr, of fuel cmp nm pool own] by simp
  with out show ?thesis using that by blast
qed

lemma groups_rows [simp]: "groups (rows_window w out) = map fst out"
  by (simp add: rows_window_def)

lemma indents_rows [simp]: "indents (rows_window w out) = map (\<lambda>r. int (snd r)) out"
  by (simp add: rows_window_def)

lemma desc_cong: "set src = set src' \<Longrightarrow> ancestor src k a x = ancestor src' k a x"
  by (induction k arbitrary: x) auto

lemma depth_in_cong: "set src = set src' \<Longrightarrow> depth_in src e x = depth_in src' e x"
  using desc_cong[of src src'] by (simp add: depth_in_def)

lemma desc_mem: "ancestor src k a x \<Longrightarrow> x \<in> set src \<Longrightarrow> a \<in> set src"
  by (induction k arbitrary: x) auto

lemma depth_anc:
  assumes ok: "pool_ok src"
  shows "ancestor src k a x \<Longrightarrow> depth_in src e x \<Longrightarrow> k \<le> e \<and> depth_in src (e - k) a"
proof (induction k arbitrary: x e)
  case 0
  then show ?case by simp
next
  case (Suc k)
  from Suc.prems(1) obtain q where q: "q \<in> set src" "index q = parent x" "ancestor src k a q" by auto
  show ?case
  proof (cases e)
    case 0
    then have "parent x = INVALID_GROUP" using Suc.prems(2) by (auto simp: depth_in_def)
    with q(1,2) index_valid[OF ok] show ?thesis by metis
  next
    case (Suc m)
    with Suc.prems(2) obtain q' where q': "q' \<in> set src" "index q' = parent x" "depth_in src m q'"
      by (auto simp: depth_in_def)
    have "q = q'" using index_inj[OF _ q(1) q'(1)] ok q(2) q'(2) by (simp add: pool_ok_def)
    then have "k \<le> m \<and> depth_in src (m - k) a" using Suc.IH[OF q(3)] q'(3) by simp
    then show ?thesis using Suc by simp
  qed
qed

lemma ancestors_distinct:
  assumes ok: "pool_ok src" and x: "x \<in> set src" and dx: "depth_in src e x"
    and a: "ancestor src k a x" and b: "ancestor src k' b x" and kk: "k < k'"
  shows "index a \<noteq> index b"
proof
  assume eq: "index a = index b"
  have as: "a \<in> set src" and bs: "b \<in> set src" using desc_mem[OF a x] desc_mem[OF b x] by auto
  have "a = b" using index_inj[OF _ as bs eq] ok by (simp add: pool_ok_def)
  moreover have "k \<le> e" "depth_in src (e - k) a" using depth_anc[OF ok a dx] by auto
  moreover have "k' \<le> e" "depth_in src (e - k') b" using depth_anc[OF ok b dx] by auto
  ultimately have "e - k = e - k'" using depth_unique[OF ok] by blast
  then show False using kk \<open>k' \<le> e\<close> by simp
qed

lemma emit_complete:
  assumes out: "emit fuel src src INVALID_GROUP 0 = Some out"
  shows "x \<in> set src \<Longrightarrow> depth_in src e x \<Longrightarrow> (x, e) \<in> set out"
proof (induction e arbitrary: x)
  case 0
  then have "parent x = INVALID_GROUP" by (auto simp: depth_in_def)
  from emit_children[OF out 0(1) this] show ?case .
next
  case (Suc e)
  from Suc.prems(2) obtain q where q: "q \<in> set src" "index q = parent x" "depth_in src e q"
    by (auto simp: depth_in_def)
  have "(q, e) \<in> set out" using Suc.IH[OF q(1,3)] .
  from emit_closed[OF out this Suc.prems(1)] q(2) show ?case by simp
qed

lemma emit_top_depth:
  assumes ok: "pool_ok src" and out: "emit fuel src src INVALID_GROUP 0 = Some out"
    and m: "(x, e) \<in> set out"
  shows "x \<in> set src \<and> depth_in src e x \<and> e < length src"
proof -
  have xs: "x \<in> set src" using emit_subset[OF out subset_refl] m by force
  from emit_depth[OF ok hangs_root subset_refl out m] have d: "depth_in src e x" by blast
  show ?thesis using xs d depth_bound[OF ok d xs] by simp
qed

lemma emit_top_set:
  assumes ok: "pool_ok src" and out: "emit fuel src src INVALID_GROUP 0 = Some out"
  shows "fst ` set out = {g \<in> set src. rooted src g}"
proof (intro set_eqI iffI)
  fix x assume "x \<in> fst ` set out"
  then obtain e where "(x, e) \<in> set out" by auto
  from emit_top_depth[OF ok out this] show "x \<in> {g \<in> set src. rooted src g}"
    by (auto simp: rooted_def)
next
  fix x assume "x \<in> {g \<in> set src. rooted src g}"
  then obtain e where "x \<in> set src" "depth_in src e x" by (auto simp: rooted_def)
  from emit_complete[OF out this] show "x \<in> fst ` set out" by force
qed

lemma rooted_cong:
  assumes "set src = set src'" "length src = length src'"
  shows "rooted src g = rooted src' g"
  using depth_in_cong[OF assms(1)] assms(2) by (simp add: rooted_def)

lemma BuildGroupList_mono:
  assumes "BuildGroupList fuel cmp nm pool own w = Some w'" "fuel \<le> fuel'"
  shows "BuildGroupList fuel' cmp nm pool own w = Some w'"
proof (cases "need_rebuild w")
  case False
  then show ?thesis using assms(1) by (simp add: BuildGroupList_def)
next
  case True
  let ?src = "shown_source cmp nm pool own (livery_class w)"
  from assms(1) obtain out where out: "emit fuel ?src ?src INVALID_GROUP 0 = Some out"
    "w' = rows_window w out"
    unfolding BuildGroupList_emit[OF True] by auto
  from emit_mono[OF out(1) assms(2)] out(2) show ?thesis
    unfolding BuildGroupList_emit[OF True] by simp
qed

section \<open>Properties of the flattened list\<close>

text \<open>
  Claim C10.  \<open>BuildGroupList\<close> and \<open>AddChildren\<close> terminate on every pool (indices
  pairwise distinct, none the sentinel), whatever the parent links: with fuel for as many nested recursive calls as there are filtered
  records the rebuild returns a window, and more fuel returns the same window.  The groups
  met when following parent links from an emitted group have pairwise distinct indices, and
  a group that lies on a cycle of parent links is not emitted.
\<close>

theorem BuildGroupList_terminates:
  assumes ok: "pool_ok pool" and nr: "need_rebuild w"
    and fu: "length (filter (group_filter own (class_vtype (livery_class w))) pool) \<le> fuel"
  shows "\<exists>w'. BuildGroupList fuel strnatcmp GetString pool own w = Some w' \<and>
           (\<forall>fuel'. fuel \<le> fuel' \<longrightarrow> BuildGroupList fuel' strnatcmp GetString pool own w = Some w') \<and>
           (\<forall>x \<in> set (groups w'). \<forall>k k' a b.
               k < k' \<and> ancestor (filter (group_filter own (class_vtype (livery_class w))) pool) k a x
                      \<and> ancestor (filter (group_filter own (class_vtype (livery_class w))) pool) k' b x
               \<longrightarrow> index a \<noteq> index b) \<and>
           (\<forall>x \<in> set (filter (group_filter own (class_vtype (livery_class w))) pool).
               (\<exists>k. 0 < k \<and> ancestor (filter (group_filter own (class_vtype (livery_class w))) pool) k x x)
               \<longrightarrow> x \<notin> set (groups w')) \<and>
           (\<forall>source v. pool_ok source \<and> length source \<le> fuel \<longrightarrow>
               (\<exists>v'. AddChildren fuel source INVALID_GROUP 0 v = Some v'))"
proof -
  let ?F = "filter (group_filter own (class_vtype (livery_class w))) pool"
  let ?src = "shown_source strnatcmp GetString pool own (livery_class w)"
  from BuildGroupList_rows[OF ok nr fu, of strnatcmp GetString] obtain out where
    out: "emit fuel ?src ?src INVALID_GROUP 0 = Some out"
    and b: "BuildGroupList fuel strnatcmp GetString pool own w = Some (rows_window w out)" by blast
  have sok: "pool_ok ?src" using shown_ok[OF ok] .
  have mono: "\<forall>fuel'. fuel \<le> fuel' \<longrightarrow>
      BuildGroupList fuel' strnatcmp GetString pool own w = Some (rows_window w out)"
    using BuildGroupList_mono[OF b] by blast
  have key: "index a \<noteq> index b'" if x: "x \<in> set (groups (rows_window w out))"
    and kk: "k < k'" and da: "ancestor ?F k a x" and db: "ancestor ?F k' b' x" for x k k' a b'
  proof -
    from x obtain e where m: "(x, e) \<in> set out" by auto
    have ns: "\<not> scheme_class (livery_class w)"
    proof
      assume "scheme_class (livery_class w)"
      then have "?src = []" by (simp add: shown_source_def)
      then have "out = []" using out by simp
      then show False using m by simp
    qed
    have se: "set ?F = set ?src" using shown_set_group[OF ns, of strnatcmp GetString pool own] by simp
    from emit_top_depth[OF sok out m] have xs: "x \<in> set ?src" and dx: "depth_in ?src e x" by auto
    have da': "ancestor ?src k a x" and db': "ancestor ?src k' b' x"
      using da db desc_cong[OF se] by auto
    from ancestors_distinct[OF sok xs dx da' db' kk] show ?thesis .
  qed
  have cyc: "x \<notin> set (groups (rows_window w out))" if "0 < k" "ancestor ?F k x x" for x k
  proof
    assume x: "x \<in> set (groups (rows_window w out))"
    have "ancestor ?F 0 x x" by simp
    from key[OF x that(1) this that(2)] show False by simp
  qed
  have add: "\<exists>v'. AddChildren fuel source INVALID_GROUP 0 v = Some v'"
    if "pool_ok source" "length source \<le> fuel" for source v
  proof -
    have "length source \<le> 0 + fuel" using that(2) by simp
    from emit_terminates[OF that(1) hangs_root this subset_refl] obtain rs where
      "emit fuel source source INVALID_GROUP 0 = Some rs" by blast
    then show ?thesis
      using AddChildren_loop_emit[of fuel source source INVALID_GROUP 0 v]
      by (simp add: AddChildren_def)
  qed
  show ?thesis
  proof (intro exI conjI)
    show "BuildGroupList fuel strnatcmp GetString pool own w = Some (rows_window w out)" by (rule b)
    show "\<forall>fuel'. fuel \<le> fuel' \<longrightarrow>
      BuildGroupList fuel' strnatcmp GetString pool own w = Some (rows_window w out)" by (rule mono)
    show "\<forall>x \<in> set (groups (rows_window w out)). \<forall>k k' a b.
               k < k' \<and> ancestor ?F k a x \<and> ancestor ?F k' b x \<longrightarrow> index a \<noteq> index b"
      using key by blast
    show "\<forall>x \<in> set ?F. (\<exists>k. 0 < k \<and> ancestor ?F k x x) \<longrightarrow> x \<notin> set (groups (rows_window w out))"
      using cyc by blast
    show "\<forall>source v. pool_ok source \<and> length source \<le> fuel \<longrightarrow>
               (\<exists>v'. AddChildren fuel source INVALID_GROUP 0 v = Some v')"
      using add by blast
  qed
qed

theorem BuildGroupList_terminates_witness:
  "pool_ok cycle_pool \<and> need_rebuild group_window \<and>
   length (filter (group_filter 0 (class_vtype (livery_class group_window))) cycle_pool) \<le> 3 \<and>
   (\<exists>w'. BuildGroupList 3 by_length example_names cycle_pool 0 group_window = Some w' \<and>
         BuildGroupList 4 by_length example_names cycle_pool 0 group_window = Some w' \<and>
         mk_group 1 2 \<notin> set (groups w'))"
proof -
  let ?F = "filter (group_filter 0 (class_vtype (livery_class group_window))) cycle_pool"
  have h1: "pool_ok cycle_pool" by code_simp
  have h2: "need_rebuild group_window" by code_simp
  have h3: "length ?F \<le> 3" by code_simp
  have m: "mk_group 1 2 \<in> set ?F" by code_simp
  have c: "ancestor ?F 2 (mk_group 1 2) (mk_group 1 2)" by code_simp
  from BuildGroupList_terminates[OF h1 h2 h3, of by_length example_names] obtain w' where
    w: "BuildGroupList 3 by_length example_names cycle_pool 0 group_window = Some w'"
       "\<forall>fuel'. 3 \<le> fuel' \<longrightarrow> BuildGroupList fuel' by_length example_names cycle_pool 0 group_window = Some w'"
       "\<forall>x \<in> set ?F. (\<exists>k. 0 < k \<and> ancestor ?F k x x) \<longrightarrow> x \<notin> set (groups w')"
    by blast
  have "mk_group 1 2 \<notin> set (groups w')" using w(3) m c by (meson zero_less_numeral)
  moreover have "BuildGroupList 4 by_length example_names cycle_pool 0 group_window = Some w'"
    using w(2) by simp
  ultimately show ?thesis using h1 h2 h3 w(1) by blast
qed

text \<open>
  Claim C6, amended.  In a group class the flattened list has no duplicates and holds
  exactly the filtered records whose chain of parent links inside the filtered set ends at
  a root: its length is the number of filtered records minus those that are not rooted
  (orphans, descendants of orphans, groups on a cycle).
\<close>

theorem BuildGroupList_length_rooted:
  assumes ok: "pool_ok pool" and nr: "need_rebuild w" and ns: "\<not> scheme_class (livery_class w)"
    and fu: "length (filter (group_filter own (class_vtype (livery_class w))) pool) \<le> fuel"
  shows "\<exists>w'. BuildGroupList fuel strnatcmp GetString pool own w = Some w' \<and>
           distinct (groups w') \<and>
           set (groups w') =
             {g \<in> set (filter (group_filter own (class_vtype (livery_class w))) pool).
                rooted (filter (group_filter own (class_vtype (livery_class w))) pool) g} \<and>
           length (groups w') =
             length (filter (rooted (filter (group_filter own (class_vtype (livery_class w))) pool))
                            (filter (group_filter own (class_vtype (livery_class w))) pool))"
proof -
  let ?F = "filter (group_filter own (class_vtype (livery_class w))) pool"
  let ?src = "shown_source strnatcmp GetString pool own (livery_class w)"
  from BuildGroupList_rows[OF ok nr fu, of strnatcmp GetString] obtain out where
    out: "emit fuel ?src ?src INVALID_GROUP 0 = Some out"
    and b: "BuildGroupList fuel strnatcmp GetString pool own w = Some (rows_window w out)" by blast
  have sok: "pool_ok ?src" using shown_ok[OF ok] .
  have se: "set ?src = set ?F" using shown_set_group[OF ns, of strnatcmp GetString pool own] by simp
  have le: "length ?src = length ?F" using ns by (simp add: shown_source_def staging_length)
  have d: "distinct (map fst out)"
    using emit_distinct[OF sok hangs_root _ out] by (metis append_Nil)
  have "fst ` set out = {g \<in> set ?src. rooted ?src g}" using emit_top_set[OF sok out] .
  also have "\<dots> = {g \<in> set ?F. rooted ?F g}" using se rooted_cong[OF se le] by auto
  finally have s: "set (map fst out) = {g \<in> set ?F. rooted ?F g}" by simp
  have dF: "distinct ?F" using pool_distinct[OF ok] by simp
  have "length (map fst out) = card (set (map fst out))" using distinct_card[OF d] by simp
  also have "\<dots> = card (set (filter (rooted ?F) ?F))" using s by simp
  also have "\<dots> = length (filter (rooted ?F) ?F)"
    by (rule distinct_card) (rule distinct_filter[OF dF])
  finally have l: "length (map fst out) = length (filter (rooted ?F) ?F)" .
  show ?thesis using b d s l by (intro exI[of _ "rows_window w out"]) simp
qed

theorem BuildGroupList_length_counterexample:
  "map_option groups (BuildGroupList 3 by_length example_names orphan_pool 0 group_window)
     = Some [mk_group 0 INVALID_GROUP] \<and>
   length (filter (group_filter 0 (class_vtype LC_GROUP_RAIL)) orphan_pool)
     - length (filter (orphan (filter (group_filter 0 (class_vtype LC_GROUP_RAIL)) orphan_pool))
                 (filter (group_filter 0 (class_vtype LC_GROUP_RAIL)) orphan_pool)) = 2"
  by code_simp

theorem BuildGroupList_length_rooted_witness:
  "pool_ok orphan_pool \<and> need_rebuild group_window \<and> \<not> scheme_class (livery_class group_window) \<and>
   length (filter (group_filter 0 (class_vtype (livery_class group_window))) orphan_pool) \<le> 3 \<and>
   (\<exists>w'. BuildGroupList 3 by_length example_names orphan_pool 0 group_window = Some w' \<and>
         length (groups w') = 1)"
proof -
  let ?F = "filter (group_filter 0 (class_vtype (livery_class group_window))) orphan_pool"
  have h1: "pool_ok orphan_pool" by code_simp
  have h2: "need_rebuild group_window" by code_simp
  have h3: "\<not> scheme_class (livery_class group_window)" by code_simp
  have h4: "length ?F \<le> 3" by code_simp
  have n: "length (filter (rooted ?F) ?F) = 1" by code_simp
  from BuildGroupList_length_rooted[OF h1 h2 h3 h4, of by_length example_names] n
  obtain w' where "BuildGroupList 3 by_length example_names orphan_pool 0 group_window = Some w'"
    "length (groups w') = 1" by auto
  then show ?thesis using h1 h2 h3 h4 by blast
qed

text \<open>
  Claim C1.  For every pool (indices pairwise distinct, none the sentinel) and every
  filter of a group class, the list \<open>BuildGroupList\<close> produces is a preorder listing of
  the forest of the filtered records.  It lists filtered records only and none twice; it
  lists every filtered root and every filtered child of a record it lists, so that it holds
  exactly the filtered records whose chain of parent links ends at a root.  A row whose
  parent is \<open>INVALID_GROUP\<close> has indent 0; every other row comes after the row of its
  parent, has the parent's indent plus one, and no row between the two has a smaller
  indent.  A record whose parent is neither \<open>INVALID_GROUP\<close> nor a filtered record is
  not in the list.
\<close>

theorem BuildGroupList_preorder:
  assumes ok: "pool_ok pool" and nr: "need_rebuild w" and ns: "\<not> scheme_class (livery_class w)"
    and fu: "length (filter (group_filter own (class_vtype (livery_class w))) pool) \<le> fuel"
  shows "\<exists>w'. BuildGroupList fuel strnatcmp GetString pool own w = Some w' \<and>
           length (indents w') = length (groups w') \<and>
           distinct (groups w') \<and>
           set (groups w') \<subseteq> set (filter (group_filter own (class_vtype (livery_class w))) pool) \<and>
           (\<forall>g \<in> set (filter (group_filter own (class_vtype (livery_class w))) pool).
              parent g = INVALID_GROUP \<longrightarrow> g \<in> set (groups w')) \<and>
           (\<forall>q \<in> set (groups w').
              \<forall>g \<in> set (filter (group_filter own (class_vtype (livery_class w))) pool).
                parent g = index q \<longrightarrow> g \<in> set (groups w')) \<and>
           set (groups w') =
             {g \<in> set (filter (group_filter own (class_vtype (livery_class w))) pool).
                rooted (filter (group_filter own (class_vtype (livery_class w))) pool) g} \<and>
           (\<forall>i < length (groups w').
              (parent (groups w' ! i) = INVALID_GROUP \<longrightarrow> indents w' ! i = 0) \<and>
              (parent (groups w' ! i) \<noteq> INVALID_GROUP \<longrightarrow>
                 (\<exists>j < i. index (groups w' ! j) = parent (groups w' ! i) \<and>
                           indents w' ! i = indents w' ! j + 1 \<and>
                           (\<forall>k. j < k \<and> k < i \<longrightarrow> indents w' ! i \<le> indents w' ! k)))) \<and>
           (\<forall>g \<in> set (filter (group_filter own (class_vtype (livery_class w))) pool).
              orphan (filter (group_filter own (class_vtype (livery_class w))) pool) g
              \<longrightarrow> g \<notin> set (groups w'))"
proof -
  let ?F = "filter (group_filter own (class_vtype (livery_class w))) pool"
  let ?src = "shown_source strnatcmp GetString pool own (livery_class w)"
  from BuildGroupList_rows[OF ok nr fu, of strnatcmp GetString] obtain out where
    out: "emit fuel ?src ?src INVALID_GROUP 0 = Some out"
    and b: "BuildGroupList fuel strnatcmp GetString pool own w = Some (rows_window w out)" by blast
  let ?w = "rows_window w out"
  have sok: "pool_ok ?src" using shown_ok[OF ok] .
  have sub: "fst ` set out \<subseteq> set ?src" using emit_subset[OF out subset_refl] .
  have se: "set ?src = set ?F" using shown_set_group[OF ns, of strnatcmp GetString pool own] by simp
  have le: "length ?src = length ?F" using ns by (simp add: shown_source_def staging_length)
  have sF: "set ?src \<subseteq> set ?F" using se by simp
  have pre: "pre_ok INVALID_GROUP 0 out" using emit_pre_ok[OF out subset_refl] .
  have dis: "distinct (map fst out)"
    using emit_distinct[OF sok hangs_root _ out] by (metis append_Nil)
  have roots: "g \<in> set (groups ?w)" if "g \<in> set ?F" "parent g = INVALID_GROUP" for g
  proof -
    have "g \<in> set ?src" using that(1) se by simp
    from emit_children[OF out this that(2)] show ?thesis by force
  qed
  have kids: "g \<in> set (groups ?w)" if "q \<in> set (groups ?w)" "g \<in> set ?F" "parent g = index q" for q g
  proof -
    from that(1) obtain e where qe: "(q, e) \<in> set out" by auto
    have "g \<in> set ?src" using that(2) se by simp
    from emit_closed[OF out qe this that(3)] show ?thesis by force
  qed
  have "fst ` set out = {g \<in> set ?src. rooted ?src g}" using emit_top_set[OF sok out] .
  also have "\<dots> = {g \<in> set ?F. rooted ?F g}" using se rooted_cong[OF se le] by auto
  finally have rt: "set (groups ?w) = {g \<in> set ?F. rooted ?F g}" by simp
  have g: "groups ?w ! i = fst (out ! i)" and ind: "indents ?w ! i = int (snd (out ! i))"
    if "i < length out" for i using that by simp_all
  have rows: "(parent (groups ?w ! i) = INVALID_GROUP \<longrightarrow> indents ?w ! i = 0) \<and>
              (parent (groups ?w ! i) \<noteq> INVALID_GROUP \<longrightarrow>
                 (\<exists>j < i. index (groups ?w ! j) = parent (groups ?w ! i) \<and>
                           indents ?w ! i = indents ?w ! j + 1 \<and>
                           (\<forall>k. j < k \<and> k < i \<longrightarrow> indents ?w ! i \<le> indents ?w ! k)))"
    if i: "i < length (groups ?w)" for i
  proof -
    have il: "i < length out" using i by simp
    from pre[unfolded pre_ok_def, rule_format, OF il]
    consider (a) "parent (fst (out ! i)) = INVALID_GROUP" "snd (out ! i) = 0"
      | (b) j where "j < i" "index (fst (out ! j)) = parent (fst (out ! i))"
          "snd (out ! i) = Suc (snd (out ! j))"
          "\<forall>k. j < k \<and> k < i \<longrightarrow> snd (out ! i) \<le> snd (out ! k)"
      by auto
    then show ?thesis
    proof cases
      case a
      then show ?thesis using g[OF il] ind[OF il] by simp
    next
      case b
      have jl: "j < length out" using b(1) il by simp
      have "fst (out ! j) \<in> set ?src" using sub jl by (metis image_eqI nth_mem subsetD)
      then have ne: "parent (fst (out ! i)) \<noteq> INVALID_GROUP" using index_valid[OF sok] b(2) by metis
      have "\<forall>k. j < k \<and> k < i \<longrightarrow> indents ?w ! i \<le> indents ?w ! k"
      proof (intro allI impI)
        fix k assume k: "j < k \<and> k < i"
        then have kl: "k < length out" using il by simp
        show "indents ?w ! i \<le> indents ?w ! k" using b(4) k ind[OF il] ind[OF kl] by simp
      qed
      moreover have "index (groups ?w ! j) = parent (groups ?w ! i)" using b(2) g[OF il] g[OF jl] by simp
      moreover have "indents ?w ! i = indents ?w ! j + 1" using b(3) ind[OF il] ind[OF jl] by simp
      ultimately show ?thesis using ne g[OF il] b(1) by auto
    qed
  qed
  have orph: "g \<notin> set (groups ?w)" if gF: "g \<in> set ?F" and o: "orphan ?F g" for g
  proof
    assume "g \<in> set (groups ?w)"
    then obtain i where i: "i < length (groups ?w)" "groups ?w ! i = g" by (auto simp: in_set_conv_nth)
    have "parent g \<noteq> INVALID_GROUP" using o by (simp add: orphan_def)
    with rows[OF i(1)] i(2) obtain j where j: "j < i" "index (groups ?w ! j) = parent g" by auto
    have "groups ?w ! j \<in> set (groups ?w)" using j(1) i(1) by simp
    then have "groups ?w ! j \<in> set ?F" using sub sF by auto
    then have "parent g \<in> set (map index ?F)" using j(2) by (metis image_eqI set_map)
    then show False using o by (simp add: orphan_def)
  qed
  show ?thesis
  proof (intro exI conjI)
    show "BuildGroupList fuel strnatcmp GetString pool own w = Some ?w" by (rule b)
    show "length (indents ?w) = length (groups ?w)" by simp
    show "distinct (groups ?w)" using dis by simp
    show "set (groups ?w) \<subseteq> set ?F" using sub sF by auto
    show "\<forall>g \<in> set ?F. parent g = INVALID_GROUP \<longrightarrow> g \<in> set (groups ?w)" using roots by blast
    show "\<forall>q \<in> set (groups ?w). \<forall>g \<in> set ?F. parent g = index q \<longrightarrow> g \<in> set (groups ?w)"
      using kids by blast
    show "set (groups ?w) = {g \<in> set ?F. rooted ?F g}" by (rule rt)
    show "\<forall>i < length (groups ?w).
              (parent (groups ?w ! i) = INVALID_GROUP \<longrightarrow> indents ?w ! i = 0) \<and>
              (parent (groups ?w ! i) \<noteq> INVALID_GROUP \<longrightarrow>
                 (\<exists>j < i. index (groups ?w ! j) = parent (groups ?w ! i) \<and>
                           indents ?w ! i = indents ?w ! j + 1 \<and>
                           (\<forall>k. j < k \<and> k < i \<longrightarrow> indents ?w ! i \<le> indents ?w ! k)))"
      using rows by blast
    show "\<forall>g \<in> set ?F. orphan ?F g \<longrightarrow> g \<notin> set (groups ?w)" using orph by blast
  qed
qed

theorem BuildGroupList_preorder_witness:
  "pool_ok scenario_pool \<and> need_rebuild group_window \<and> \<not> scheme_class (livery_class group_window) \<and>
   length (filter (group_filter 0 (class_vtype (livery_class group_window))) scenario_pool) \<le> 3 \<and>
   (\<exists>w'. BuildGroupList 3 natural_order example_names scenario_pool 0 group_window = Some w' \<and>
         groups w' = [mk_group 1 INVALID_GROUP, mk_group 2 1, mk_group 0 INVALID_GROUP] \<and>
         indents w' = [0, 1, 0] \<and> distinct (groups w') \<and>
         (\<forall>i < length (groups w'). parent (groups w' ! i) = INVALID_GROUP \<longrightarrow> indents w' ! i = 0))"
proof -
  let ?F = "filter (group_filter 0 (class_vtype (livery_class group_window))) scenario_pool"
  have h1: "pool_ok scenario_pool" by code_simp
  have h2: "need_rebuild group_window" by code_simp
  have h3: "\<not> scheme_class (livery_class group_window)" by code_simp
  have h4: "length ?F \<le> 3" by code_simp
  have g: "map_option groups (BuildGroupList 3 natural_order example_names scenario_pool 0 group_window)
      = Some [mk_group 1 INVALID_GROUP, mk_group 2 1, mk_group 0 INVALID_GROUP]" by code_simp
  have i: "map_option indents (BuildGroupList 3 natural_order example_names scenario_pool 0 group_window)
      = Some [0, 1, 0]" by code_simp
  from BuildGroupList_preorder[OF h1 h2 h3 h4, of natural_order example_names] obtain w' where
    w: "BuildGroupList 3 natural_order example_names scenario_pool 0 group_window = Some w'"
       "distinct (groups w')"
       "\<forall>i < length (groups w').
              (parent (groups w' ! i) = INVALID_GROUP \<longrightarrow> indents w' ! i = 0) \<and>
              (parent (groups w' ! i) \<noteq> INVALID_GROUP \<longrightarrow>
                 (\<exists>j < i. index (groups w' ! j) = parent (groups w' ! i) \<and>
                           indents w' ! i = indents w' ! j + 1 \<and>
                           (\<forall>k. j < k \<and> k < i \<longrightarrow> indents w' ! i \<le> indents w' ! k)))"
    by blast
  have "groups w' = [mk_group 1 INVALID_GROUP, mk_group 2 1, mk_group 0 INVALID_GROUP]"
    using g w(1) by simp
  moreover have "indents w' = [0, 1, 0]" using i w(1) by simp
  moreover have "\<forall>i < length (groups w'). parent (groups w' ! i) = INVALID_GROUP \<longrightarrow> indents w' ! i = 0"
    using w(3) by blast
  ultimately show ?thesis using h1 h2 h3 h4 w(1,2) by blast
qed







section \<open>Properties of clicks, the dropdown and invalidation\<close>

subsection \<open>Bits, row counts and the click loop\<close>

lemma HasBit_bit: "HasBit x y = bit x y"
  unfolding HasBit_def push_bit_of_1 by (simp add: and_exp_eq_0_iff_not_bit)

lemma HasBit_push: "HasBit (push_bit j 1) n = (n = j \<and> j < 32)"
  unfolding HasBit_bit push_bit_of_1 by (auto simp: bit_exp_iff)



lemma HasBit_Set: "HasBit (SetBit x j) n = (HasBit x n \<or> (n = j \<and> j < 32))"
  unfolding HasBit_bit SetBit_def push_bit_of_1 by (auto simp: bit_or_iff bit_exp_iff)

lemma HasBit_zero: "\<not> HasBit 0 n"
  by (simp add: HasBit_bit)

lemma LS_END_val: "LS_END = 23"
  by (simp add: LS_END_def livery_class_table_def)

lemma count_foldl: "foldl (\<lambda>r x. if P x then r + 1 else r) n xs = n + length (filter P xs)"
  by (induction xs arbitrary: n) auto

lemma SetRows_scheme:
  "scheme_class (livery_class w) \<Longrightarrow>
   rows (SetRows used w) = length (filter (scheme_active used (livery_class w)) [LS_DEFAULT..<LS_END])"
  by (simp add: SetRows_def count_foldl)

lemma SetRows_group: "\<not> scheme_class (livery_class w) \<Longrightarrow> rows (SetRows used w) = length (groups w)"
  by (simp add: SetRows_def)

lemma draw_schemes_neg: "pos \<le> 0 \<Longrightarrow> map fst (draw_schemes act s xs pos) = filter act xs"
  by (induction xs arbitrary: pos) auto





text \<open>
  In a window whose row count is the one \<open>SetRows\<close> computes from the current
  \<open>used_liveries\<close>, a click on a row at or beyond the rows drawn (the active schemes, or
  the flattened list) returns the window unchanged.
\<close>

lemma OnClick_matrix_guard:
  assumes rs: "rows w = rows (SetRows used w)"
    and r: "(if scheme_class (livery_class w) then length (DrawWidget_schemes used w 0)
             else length (groups w)) \<le> row"
  shows "OnClick_matrix used ctrl_pressed row w = Inr w"
proof -
  have "rows w \<le> row"
  proof (cases "scheme_class (livery_class w)")
    case True
    have "map fst (DrawWidget_schemes used w 0) = filter (scheme_active used (livery_class w)) [LS_DEFAULT..<LS_END]"
      unfolding DrawWidget_schemes_def by (simp add: draw_schemes_neg)
    from arg_cong[OF this, of length] have "length (DrawWidget_schemes used w 0) = rows (SetRows used w)"
      using SetRows_scheme[OF True, of used] by simp
    then show ?thesis using True rs r by simp
  next
    case False
    then show ?thesis using rs r SetRows_group[OF False, of used] by simp
  qed
  then show ?thesis by (simp add: OnClick_matrix_def)
qed

text \<open>
  Claim C9.  A click on a row at or beyond the populated rows should leave the class, the
  selection and the list unchanged, without a fault.  The source guards the click with the
  stored row count, which \<open>OnInvalidateData\<close> with data \<open>-1\<close> does not recompute.  The
  rail window has two rows while schemes 1 and 3 are in use; when scheme 3 is no longer in
  use the invalidation leaves the window as it is, with \<open>rows = 2\<close> although one row is
  drawn, and a click on row 1 passes the guard, runs the loop up to \<open>LS_END\<close> and fails
  the assertion \<open>j < LS_END\<close> of the source.
\<close>

theorem OnClick_matrix_stale_rows:
  "rows rail_window = rows (SetRows 11 rail_window) \<and>
   OnInvalidateData 0 natural_order example_names [] 3 LIT_ALL 1 (- 1) True rail_window
     = Some rail_window \<and>
   length (DrawWidget_schemes 3 rail_window 0) = 1 \<and>
   OnClick_matrix 3 False 1 rail_window = Inl AssertionFailed"
  by code_simp

subsection \<open>The colour dropdown\<close>

lemma HasBit_used_foldl:
  "i < 32 \<Longrightarrow>
   HasBit (foldl (\<lambda>u c. if cindex c \<noteq> lc then SetBit u (unat (colour c)) else u) u0 cs) i
   = (HasBit u0 i \<or> (\<exists>c \<in> set cs. cindex c \<noteq> lc \<and> unat (colour c) = i))"
proof (induction cs arbitrary: u0)
  case Nil
  then show ?case by simp
next
  case (Cons c cs)
  show ?case using Cons.prems by (auto simp: Cons.IH HasBit_Set)
qed

lemma HasBit_used_colours:
  "i < 32 \<Longrightarrow> HasBit (used_colours_of companies lc) i
     = (\<exists>c \<in> set companies. cindex c \<noteq> lc \<and> unat (colour c) = i)"
  unfolding used_colours_of_def by (simp add: HasBit_used_foldl HasBit_zero)

lemma upt_schemes: "[LS_BEGIN..<LS_END] = 0 # [1..<LS_END]"
  by (simp add: LS_BEGIN_def LS_END_val upt_conv_Cons)

lemma dropdown_liveries_default:
  assumes "scheme_class (livery_class w)" "HasBit (sel w) LS_DEFAULT"
  shows "dropdown_liveries c pool w = Inr (clivery c LS_DEFAULT, None)"
  using assms unfolding dropdown_liveries_def upt_schemes by (simp add: LS_DEFAULT_def)

lemma length_colour_dropdown: "length colour_dropdown = COLOUR_END"
  by (simp add: colour_dropdown_def COLOUR_END_def)

lemma ShowColourDropDownMenu_eq:
  assumes "Company_Get companies (window_number w) = Some c"
    and "dropdown_liveries c pool w = Inr (liv, dl)"
  shows "ShowColourDropDownMenu companies pool lcomp primary w =
         Inr (dropdown_items companies lcomp primary w dl, dropdown_selected primary liv dl)"
proof (cases dl)
  case None
  then show ?thesis using assms
    unfolding ShowColourDropDownMenu_def Let_def length_colour_dropdown dropdown_items_def dropdown_selected_def
    by simp
next
  case (Some d)
  then show ?thesis using assms
    unfolding ShowColourDropDownMenu_def Let_def length_colour_dropdown dropdown_items_def dropdown_selected_def
    by simp
qed

lemma ShowColourDropDownMenu_Inr:
  assumes "ShowColourDropDownMenu companies pool lcomp primary w = Inr (list, selected)"
  obtains c liv dl where
    "Company_Get companies (window_number w) = Some c"
    "dropdown_liveries c pool w = Inr (liv, dl)"
    "list = dropdown_items companies lcomp primary w dl"
    "selected = dropdown_selected primary liv dl"
proof -
  obtain c where c: "Company_Get companies (window_number w) = Some c"
  proof (cases "Company_Get companies (window_number w)")
    case None
    then show ?thesis using assms unfolding ShowColourDropDownMenu_def Let_def by simp
  next
    case (Some c)
    then show ?thesis using that by blast
  qed
  obtain liv dl where l: "dropdown_liveries c pool w = Inr (liv, dl)"
  proof (cases "dropdown_liveries c pool w")
    case (Inl e)
    then show ?thesis using assms c unfolding ShowColourDropDownMenu_def Let_def by simp
  next
    case (Inr p)
    then show ?thesis using that by (cases p) blast
  qed
  from ShowColourDropDownMenu_eq[OF c l, of lcomp primary] assms
  have "list = dropdown_items companies lcomp primary w dl" "selected = dropdown_selected primary liv dl"
    by simp_all
  with c l show ?thesis using that by blast
qed

lemma palette_mem:
  "(r, m) \<in> set (map (\<lambda>i. (int i, HasBit u i)) [0..<n]) \<longleftrightarrow> (\<exists>i < n. r = int i \<and> m = HasBit u i)"
  by auto

lemma dropdown_items_mem:
  "(r, m) \<in> set (dropdown_items companies lcomp primary w dl) \<longleftrightarrow>
     (\<exists>d. dl = Some d \<and> r = uint ((if primary then colour1 d else colour2 d) + of_nat COLOUR_END) \<and> \<not> m) \<or>
     (\<exists>i < COLOUR_END. r = int i \<and>
        m = HasBit (if scheme_class (livery_class w) \<and> HasBit (sel w) LS_DEFAULT \<and> primary
                    then used_colours_of companies lcomp else 0) i)"
proof -
  define u where "u = (if scheme_class (livery_class w) \<and> HasBit (sel w) LS_DEFAULT \<and> primary
                    then used_colours_of companies lcomp else 0)"
  define hd_items where "hd_items = (case dl of None \<Rightarrow> []
      | Some d \<Rightarrow> [(uint ((if primary then colour1 d else colour2 d) + of_nat COLOUR_END), False)])"
  have a: "dropdown_items companies lcomp primary w dl = hd_items @ map (\<lambda>i. (int i, HasBit u i)) [0..<COLOUR_END]"
    unfolding dropdown_items_def u_def hd_items_def ..
  have b: "(r, m) \<in> set hd_items \<longleftrightarrow>
     (\<exists>d. dl = Some d \<and> r = uint ((if primary then colour1 d else colour2 d) + of_nat COLOUR_END) \<and> \<not> m)"
    unfolding hd_items_def by (cases dl) auto
  have "(r, m) \<in> set (dropdown_items companies lcomp primary w dl) \<longleftrightarrow>
        (r, m) \<in> set hd_items \<or> (r, m) \<in> set (map (\<lambda>i. (int i, HasBit u i)) [0..<COLOUR_END])"
    unfolding a by (simp only: set_append Un_iff)
  then show ?thesis unfolding b palette_mem u_def .
qed

lemma uint_eq_int: "(uint (x :: byte) = int i) = (unat x = i)"
proof
  assume "uint x = int i"
  then have "nat (uint x) = nat (int i)" by (rule arg_cong)
  then show "unat x = i" by (simp only: unat_eq_nat_uint nat_int)
next
  assume "unat x = i"
  then have "int (unat x) = int i" by (rule arg_cong)
  then show "uint x = int i" by (simp only: uint_nat)
qed

text \<open>
  Claim C5.  The dropdown holds an entry for every palette colour, and an entry is masked
  exactly when the primary slot is built in a scheme class with the bit of the default
  scheme selected and the entry's colour is the colour of a company other than the local
  company.  The source excludes \<open>_local_company\<close>; the dropdown buttons are enabled in
  the window of the local company only, and there the company excluded is the company of
  the window.  \<open>SetBit\<close> is defined for shifts below 32, so company colours are taken
  below \<open>COLOUR_END\<close>.
\<close>

theorem ShowColourDropDownMenu_masking:
  assumes res: "ShowColourDropDownMenu companies pool local_company primary w = Inr (list, selected)"
    and col: "\<forall>c \<in> set companies. unat (colour c) < COLOUR_END"
  shows "(\<forall>i < COLOUR_END. \<exists>masked. (int i, masked) \<in> set list) \<and>
         (\<forall>(r, masked) \<in> set list.
            masked = (primary \<and> scheme_class (livery_class w) \<and> HasBit (sel w) LS_DEFAULT \<and>
                      (\<exists>c \<in> set companies. cindex c \<noteq> local_company \<and> uint (colour c) = r))) \<and>
         (window_number w = local_company \<longrightarrow>
            (\<forall>(r, masked) \<in> set list.
               masked = (primary \<and> scheme_class (livery_class w) \<and> HasBit (sel w) LS_DEFAULT \<and>
                         (\<exists>c \<in> set companies. cindex c \<noteq> window_number w \<and> uint (colour c) = r))))"
proof -
  define on where "on = (scheme_class (livery_class w) \<and> HasBit (sel w) LS_DEFAULT \<and> primary)"
  define used where "used = (if on then used_colours_of companies local_company else 0)"
  from res obtain c liv dl where
    c: "Company_Get companies (window_number w) = Some c"
    and l: "dropdown_liveries c pool w = Inr (liv, dl)"
    and li: "list = dropdown_items companies local_company primary w dl"
    and se: "selected = dropdown_selected primary liv dl"
    by (rule ShowColourDropDownMenu_Inr)
  have mem: "(r, m) \<in> set list \<longleftrightarrow>
     (\<exists>d. dl = Some d \<and> r = uint ((if primary then colour1 d else colour2 d) + of_nat COLOUR_END) \<and> \<not> m) \<or>
     (\<exists>i < COLOUR_END. r = int i \<and> m = HasBit used i)" for r m
    unfolding li used_def on_def by (rule dropdown_items_mem)
  have nd: "dl = None" if "on"
  proof -
    have "dropdown_liveries c pool w = Inr (clivery c LS_DEFAULT, None)"
      using that unfolding on_def by (intro dropdown_liveries_default) simp_all
    then show ?thesis using l by simp
  qed
  have hb: "HasBit used i = (on \<and> (\<exists>c \<in> set companies. cindex c \<noteq> local_company \<and> uint (colour c) = int i))"
    if "i < COLOUR_END" for i
  proof (cases on)
    case True
    have i32: "i < 32" using that by (simp add: COLOUR_END_def)
    show ?thesis unfolding used_def uint_eq_int using True HasBit_used_colours[OF i32] by simp
  next
    case False
    then show ?thesis unfolding used_def by (simp add: HasBit_zero)
  qed
  have all: "masked = (primary \<and> scheme_class (livery_class w) \<and> HasBit (sel w) LS_DEFAULT \<and>
                      (\<exists>c \<in> set companies. cindex c \<noteq> local_company \<and> uint (colour c) = r))"
    if m: "(r, masked) \<in> set list" for r masked
  proof -
    from m[unfolded mem] consider (a) d where "dl = Some d" "\<not> masked"
      | (b) i where "i < COLOUR_END" "r = int i" "masked = HasBit used i" by blast
    then show ?thesis
    proof cases
      case a
      then have "\<not> on" using nd by auto
      then show ?thesis using a(2) unfolding on_def by blast
    next
      case b
      show ?thesis using hb[OF b(1)] b(2,3) unfolding on_def by blast
    qed
  qed
  have ex: "\<exists>masked. (int i, masked) \<in> set list" if "i < COLOUR_END" for i
    unfolding mem using that by blast
  show ?thesis
  proof (intro conjI ballI allI impI)
    fix i assume "i < COLOUR_END"
    then show "\<exists>masked. (int i, masked) \<in> set list" by (rule ex)
  next
    fix x assume x: "x \<in> set list"
    obtain r masked where xe: "x = (r, masked)" by (cases x)
    have "masked = (primary \<and> scheme_class (livery_class w) \<and> HasBit (sel w) LS_DEFAULT \<and>
                      (\<exists>c \<in> set companies. cindex c \<noteq> local_company \<and> uint (colour c) = r))"
      using all x unfolding xe .
    then show "case x of (r, masked) \<Rightarrow>
            masked = (primary \<and> scheme_class (livery_class w) \<and> HasBit (sel w) LS_DEFAULT \<and>
                      (\<exists>c \<in> set companies. cindex c \<noteq> local_company \<and> uint (colour c) = r))"
      unfolding xe by simp
  next
    fix x assume wl: "window_number w = local_company" and x: "x \<in> set list"
    obtain r masked where xe: "x = (r, masked)" by (cases x)
    have "masked = (primary \<and> scheme_class (livery_class w) \<and> HasBit (sel w) LS_DEFAULT \<and>
                      (\<exists>c \<in> set companies. cindex c \<noteq> window_number w \<and> uint (colour c) = r))"
      using all x unfolding xe wl .
    then show "case x of (r, masked) \<Rightarrow>
            masked = (primary \<and> scheme_class (livery_class w) \<and> HasBit (sel w) LS_DEFAULT \<and>
                      (\<exists>c \<in> set companies. cindex c \<noteq> window_number w \<and> uint (colour c) = r))"
      unfolding xe by simp
  qed
qed

theorem ShowColourDropDownMenu_masking_witness:
  "ShowColourDropDownMenu [red_company, blue_company] [] 1 True scheme_window =
     Inr ([(0, False), (1, False), (2, False), (3, False), (4, True), (5, False), (6, False),
           (7, False), (8, False), (9, False), (10, False), (11, False), (12, False),
           (13, False), (14, False), (15, False)], 8) \<and>
   unat (colour red_company) < COLOUR_END \<and> unat (colour blue_company) < COLOUR_END \<and>
   (\<exists>masked. (4 :: int, masked) \<in>
      set [(0, False), (1, False), (2, False), (3, False), (4, True), (5, False), (6, False),
           (7, False), (8, False), (9, False), (10, False), (11, False), (12, False),
           (13, False), (14, False), (15, False)] \<and>
      masked = (\<exists>c \<in> set [red_company, blue_company]. cindex c \<noteq> 1 \<and> uint (colour c) = 4))"
proof -
  let ?L = "[(0, False), (1, False), (2, False), (3, False), (4, True), (5, False), (6, False),
           (7, False), (8, False), (9, False), (10, False), (11, False), (12, False),
           (13, False), (14, False), (15, False)] :: (int \<times> bool) list"
  have h1: "ShowColourDropDownMenu [red_company, blue_company] [] 1 True scheme_window = Inr (?L, 8)"
    by code_simp
  have h2: "\<forall>c \<in> set [red_company, blue_company]. unat (colour c) < COLOUR_END" by code_simp
  have h3: "unat (colour red_company) < COLOUR_END" "unat (colour blue_company) < COLOUR_END"
    using h2 by simp_all
  have on: "scheme_class (livery_class scheme_window)" "HasBit (sel scheme_window) LS_DEFAULT"
    by code_simp+
  have m: "(4, True) \<in> set ?L" by simp
  from ShowColourDropDownMenu_masking[OF h1 h2] have
    "\<forall>(r, masked) \<in> set ?L.
       masked = (True \<and> scheme_class (livery_class scheme_window) \<and> HasBit (sel scheme_window) LS_DEFAULT \<and>
                 (\<exists>c \<in> set [red_company, blue_company]. cindex c \<noteq> 1 \<and> uint (colour c) = r))"
    by (rule conjunct1[OF conjunct2])
  from bspec[OF this m] on
  have "True = (\<exists>c \<in> set [red_company, blue_company]. cindex c \<noteq> 1 \<and> uint (colour c) = 4)"
    by simp
  with m h1 h3 show ?thesis by blast
qed

lemma find_upt_Some:
  assumes "find P [0..<n] = Some s"
  shows "s < n \<and> P s \<and> (\<forall>t < s. \<not> P t)"
proof -
  from assms obtain i where i: "i < length [0..<n]" "P ([0..<n] ! i)" "s = [0..<n] ! i"
    "\<forall>j < i. \<not> P ([0..<n] ! j)" unfolding find_Some_iff by blast
  have in': "i < n" using i(1) by simp
  have si: "s = i" using i(3) in' by simp
  have "\<not> P t" if "t < s" for t
  proof -
    have "t < i" using that si by simp
    moreover have "[0..<n] ! t = t" using that si in' by simp
    ultimately show ?thesis using i(4) by metis
  qed
  then show ?thesis using in' si i(2) by simp
qed

lemma find_upt_None:
  assumes "find P [0..<n] = None"
  shows "\<forall>t < n. \<not> P t"
  using assms unfolding find_None_iff by simp

lemma dropdown_liveries_scheme:
  assumes sc: "scheme_class (livery_class w)"
    and l: "dropdown_liveries c pool w = Inr (rep, inh)"
  shows "\<exists>scheme. rep = clivery c scheme \<and> (inh = None) = (scheme = LS_DEFAULT) \<and>
           (inh \<noteq> None \<longrightarrow> inh = Some (clivery c LS_DEFAULT)) \<and>
           ((scheme < LS_END \<and> HasBit (sel w) scheme \<and> (\<forall>t < scheme. \<not> HasBit (sel w) t)) \<or>
            (scheme = LS_DEFAULT \<and> (\<forall>t < LS_END. \<not> HasBit (sel w) t)))"
proof (cases "find (HasBit (sel w)) [0..<LS_END]")
  case None
  have "rep = clivery c LS_DEFAULT" "inh = None"
    using l sc None unfolding dropdown_liveries_def by (simp_all add: LS_BEGIN_def)
  then show ?thesis using find_upt_None[OF None] by blast
next
  case (Some s)
  have r: "rep = clivery c s" "inh = (if s \<noteq> LS_DEFAULT then Some (clivery c LS_DEFAULT) else None)"
    using l sc Some unfolding dropdown_liveries_def by (simp_all add: LS_BEGIN_def)
  have "(inh = None) = (s = LS_DEFAULT)" using r(2) by simp
  moreover have "inh \<noteq> None \<longrightarrow> inh = Some (clivery c LS_DEFAULT)" using r(2) by simp
  ultimately show ?thesis using r(1) find_upt_Some[OF Some] by blast
qed

lemma dropdown_liveries_group:
  assumes sc: "\<not> scheme_class (livery_class w)"
    and l: "dropdown_liveries c pool w = Inr (rep, inh)"
  shows "\<exists>g. Group_Get pool (unat (sel w)) = Some g \<and> rep = livery g \<and>
           (parent g = INVALID_GROUP \<longrightarrow> inh = Some (clivery c LS_DEFAULT)) \<and>
           (parent g \<noteq> INVALID_GROUP \<longrightarrow>
              (\<exists>pg. Group_Get pool (unat (parent g)) = Some pg \<and> inh = Some (livery pg)))"
proof (cases "Group_Get pool (unat (sel w))")
  case None
  then show ?thesis using l sc unfolding dropdown_liveries_def by simp
next
  case (Some g)
  show ?thesis
  proof (cases "parent g = INVALID_GROUP")
    case True
    then show ?thesis using l sc Some unfolding dropdown_liveries_def by simp
  next
    case False
    show ?thesis
    proof (cases "Group_Get pool (unat (parent g))")
      case None
      then show ?thesis using l sc Some False unfolding dropdown_liveries_def by simp
    next
      case (Some pg)
      then show ?thesis using l sc \<open>Group_Get pool (unat (sel w)) = Some g\<close> False
        unfolding dropdown_liveries_def by simp
    qed
  qed
qed

text \<open>
  Claim C7, amended.  The livery shown is that of the lowest selected scheme below
  \<open>LS_END\<close> (the default scheme when none is selected) in a scheme class, and that of
  the selected group in a group class.  The synthetic default entry exists unless the
  livery shown is the default scheme's; when it exists it is the first entry and it is
  preselected exactly when the in-use bit of the slot is clear, otherwise the colour of
  the slot is preselected; when it does not exist the colour of the slot is preselected
  whatever the in-use bit.
\<close>

theorem ShowColourDropDownMenu_preselection:
  assumes res: "ShowColourDropDownMenu companies pool local_company primary w = Inr (list, selected)"
  shows "\<exists>c rep inh.
           Company_Get companies (window_number w) = Some c \<and>
           dropdown_liveries c pool w = Inr (rep, inh) \<and>
           (scheme_class (livery_class w) \<longrightarrow>
              (\<exists>scheme. rep = clivery c scheme \<and> (inh = None) = (scheme = LS_DEFAULT) \<and>
                 ((scheme < LS_END \<and> HasBit (sel w) scheme \<and> (\<forall>t < scheme. \<not> HasBit (sel w) t)) \<or>
                  (scheme = LS_DEFAULT \<and> (\<forall>t < LS_END. \<not> HasBit (sel w) t))))) \<and>
           (\<not> scheme_class (livery_class w) \<longrightarrow>
              (\<exists>g. Group_Get pool (unat (sel w)) = Some g \<and> rep = livery g \<and> inh \<noteq> None)) \<and>
           (inh = None \<longrightarrow>
              length list = COLOUR_END \<and>
              selected = uint (if primary then colour1 rep else colour2 rep)) \<and>
           (\<forall>d. inh = Some d \<longrightarrow>
              length list = Suc COLOUR_END \<and>
              hd list = (uint ((if primary then colour1 d else colour2 d) + of_nat COLOUR_END), False) \<and>
              selected = (if HasBit8 (in_use rep) (if primary then 0 else 1)
                          then uint (if primary then colour1 rep else colour2 rep)
                          else fst (hd list)))"
proof -
  from res obtain c rep inh where
    c: "Company_Get companies (window_number w) = Some c"
    and l: "dropdown_liveries c pool w = Inr (rep, inh)"
    and li: "list = dropdown_items companies local_company primary w inh"
    and se: "selected = dropdown_selected primary rep inh"
    by (rule ShowColourDropDownMenu_Inr)
  have s: "scheme_class (livery_class w) \<longrightarrow>
              (\<exists>scheme. rep = clivery c scheme \<and> (inh = None) = (scheme = LS_DEFAULT) \<and>
                 ((scheme < LS_END \<and> HasBit (sel w) scheme \<and> (\<forall>t < scheme. \<not> HasBit (sel w) t)) \<or>
                  (scheme = LS_DEFAULT \<and> (\<forall>t < LS_END. \<not> HasBit (sel w) t))))"
    using dropdown_liveries_scheme[OF _ l] by blast
  have g: "\<not> scheme_class (livery_class w) \<longrightarrow>
              (\<exists>g. Group_Get pool (unat (sel w)) = Some g \<and> rep = livery g \<and> inh \<noteq> None)"
  proof
    assume ns: "\<not> scheme_class (livery_class w)"
    from dropdown_liveries_group[OF ns l] obtain g where
      g: "Group_Get pool (unat (sel w)) = Some g" "rep = livery g"
         "parent g = INVALID_GROUP \<longrightarrow> inh = Some (clivery c LS_DEFAULT)"
         "parent g \<noteq> INVALID_GROUP \<longrightarrow> (\<exists>pg. Group_Get pool (unat (parent g)) = Some pg \<and> inh = Some (livery pg))"
      by blast
    have "inh \<noteq> None" using g(3,4) by (cases "parent g = INVALID_GROUP") auto
    then show "\<exists>g. Group_Get pool (unat (sel w)) = Some g \<and> rep = livery g \<and> inh \<noteq> None"
      using g(1,2) by blast
  qed
  have n: "inh = None \<longrightarrow> length list = COLOUR_END \<and>
              selected = uint (if primary then colour1 rep else colour2 rep)"
    unfolding li se dropdown_items_def dropdown_selected_def by simp
  have d: "\<forall>d. inh = Some d \<longrightarrow>
              length list = Suc COLOUR_END \<and>
              hd list = (uint ((if primary then colour1 d else colour2 d) + of_nat COLOUR_END), False) \<and>
              selected = (if HasBit8 (in_use rep) (if primary then 0 else 1)
                          then uint (if primary then colour1 rep else colour2 rep)
                          else fst (hd list))"
    unfolding li se dropdown_items_def dropdown_selected_def by simp
  show ?thesis using c l s g n d by blast
qed

theorem ShowColourDropDownMenu_preselection_counterexample:
  "ShowColourDropDownMenu [blue_company] [] 1 False scheme_window =
     Inr ([(0, False), (1, False), (2, False), (3, False), (4, False), (5, False), (6, False),
           (7, False), (8, False), (9, False), (10, False), (11, False), (12, False),
           (13, False), (14, False), (15, False)], 5) \<and>
   \<not> HasBit8 (in_use (clivery blue_company LS_DEFAULT)) 1"
  by code_simp

theorem ShowColourDropDownMenu_preselection_witness:
  "ShowColourDropDownMenu [blue_company] [] 1 True rail_window =
     Inr ([(24, False), (0, False), (1, False), (2, False), (3, False), (4, False), (5, False),
           (6, False), (7, False), (8, False), (9, False), (10, False), (11, False), (12, False),
           (13, False), (14, False), (15, False)], 24) \<and>
   (\<exists>c rep inh. Company_Get [blue_company] (window_number rail_window) = Some c \<and>
       dropdown_liveries c [] rail_window = Inr (rep, inh))"
proof -
  have h1: "ShowColourDropDownMenu [blue_company] [] 1 True rail_window =
     Inr ([(24, False), (0, False), (1, False), (2, False), (3, False), (4, False), (5, False),
           (6, False), (7, False), (8, False), (9, False), (10, False), (11, False), (12, False),
           (13, False), (14, False), (15, False)], 24)" by code_simp
  from ShowColourDropDownMenu_preselection[OF h1] h1 show ?thesis by blast
qed

text \<open>
  Claim C8, amended.  \<open>OnDropdownSelect\<close> never changes the window.  In the window of
  the local company it posts, in a scheme class, one command for each scheme below
  \<open>LS_END\<close> whose bit is selected or, with the control key, that is active for the
  class, and for no other scheme; in a group class it posts one command for the selected
  group.  In the window of another company it posts nothing.
\<close>

theorem OnDropdownSelect_requests:
  "snd (OnDropdownSelect used ctrl_pressed local_company primary idx w) = w \<and>
   (window_number w \<noteq> local_company \<longrightarrow>
      fst (OnDropdownSelect used ctrl_pressed local_company primary idx w) = []) \<and>
   (window_number w = local_company \<and> scheme_class (livery_class w) \<longrightarrow>
      (\<exists>schemes.
         fst (OnDropdownSelect used ctrl_pressed local_company primary idx w) =
           map (\<lambda>scheme. CMD_SET_COMPANY_COLOUR scheme primary
                             (if idx \<ge> int COLOUR_END then INVALID_COLOUR else idx)) schemes \<and>
         distinct schemes \<and>
         (\<forall>scheme. scheme \<in> set schemes \<longleftrightarrow>
            scheme < LS_END \<and>
            (HasBit (sel w) scheme \<or> (ctrl_pressed \<and> scheme_active used (livery_class w) scheme))))) \<and>
   (window_number w = local_company \<and> \<not> scheme_class (livery_class w) \<longrightarrow>
      fst (OnDropdownSelect used ctrl_pressed local_company primary idx w) =
        [CMD_SET_GROUP_LIVERY (ucast (sel w)) primary
           (if idx \<ge> int COLOUR_END then INVALID_COLOUR else idx)])"
proof (intro conjI impI)
  show "snd (OnDropdownSelect used ctrl_pressed local_company primary idx w) = w"
    by (simp add: OnDropdownSelect_def Let_def)
next
  assume "window_number w \<noteq> local_company"
  then show "fst (OnDropdownSelect used ctrl_pressed local_company primary idx w) = []"
    by (simp add: OnDropdownSelect_def)
next
  assume a: "window_number w = local_company \<and> scheme_class (livery_class w)"
  let ?S = "filter (\<lambda>scheme. HasBit (sel w) scheme \<or>
                       (ctrl_pressed \<and> scheme_active used (livery_class w) scheme))
                   [LS_DEFAULT..<LS_END]"
  have 1: "fst (OnDropdownSelect used ctrl_pressed local_company primary idx w) =
           map (\<lambda>scheme. CMD_SET_COMPANY_COLOUR scheme primary
                             (if idx \<ge> int COLOUR_END then INVALID_COLOUR else idx)) ?S"
    using a by (simp add: OnDropdownSelect_def Let_def)
  have 2: "distinct ?S" by simp
  have 3: "\<forall>scheme. scheme \<in> set ?S \<longleftrightarrow>
            scheme < LS_END \<and>
            (HasBit (sel w) scheme \<or> (ctrl_pressed \<and> scheme_active used (livery_class w) scheme))"
    by (auto simp: LS_DEFAULT_def)
  show "\<exists>schemes.
         fst (OnDropdownSelect used ctrl_pressed local_company primary idx w) =
           map (\<lambda>scheme. CMD_SET_COMPANY_COLOUR scheme primary
                             (if idx \<ge> int COLOUR_END then INVALID_COLOUR else idx)) schemes \<and>
         distinct schemes \<and>
         (\<forall>scheme. scheme \<in> set schemes \<longleftrightarrow>
            scheme < LS_END \<and>
            (HasBit (sel w) scheme \<or> (ctrl_pressed \<and> scheme_active used (livery_class w) scheme)))"
    using 1 2 3 by (intro exI[of _ ?S] conjI)
next
  assume "window_number w = local_company \<and> \<not> scheme_class (livery_class w)"
  then show "fst (OnDropdownSelect used ctrl_pressed local_company primary idx w) =
        [CMD_SET_GROUP_LIVERY (ucast (sel w)) primary
           (if idx \<ge> int COLOUR_END then INVALID_COLOUR else idx)]"
    by (simp add: OnDropdownSelect_def Let_def)
qed

theorem OnDropdownSelect_requests_counterexample:
  "HasBit (sel scheme_window) LS_DEFAULT \<and> scheme_class (livery_class scheme_window) \<and>
   OnDropdownSelect 1 False 0 True 4 scheme_window = ([], scheme_window)"
  by code_simp

theorem OnDropdownSelect_requests_witness:
  "window_number scheme_window = 1 \<and> scheme_class (livery_class scheme_window) \<and>
   OnDropdownSelect 1 False 1 True 4 scheme_window = ([CMD_SET_COMPANY_COLOUR 0 True 4], scheme_window) \<and>
   snd (OnDropdownSelect 1 False 1 True 4 scheme_window) = scheme_window"
proof -
  have a: "window_number scheme_window = 1" by code_simp
  have b: "scheme_class (livery_class scheme_window)" by code_simp
  have c: "OnDropdownSelect 1 False 1 True 4 scheme_window = ([CMD_SET_COMPANY_COLOUR 0 True 4], scheme_window)"
    by code_simp
  from OnDropdownSelect_requests[of 1 False 1 True 4 scheme_window]
  have "snd (OnDropdownSelect 1 False 1 True 4 scheme_window) = scheme_window" by (rule conjunct1)
  then show ?thesis using a b c by simp
qed

text \<open>
  Claim C2, amended.  An invalidation whose vehicle type is that of the group class shown
  rebuilds the list and sets the row count.  The selection is kept when it is the index of
  a group of the pool, whether or not that group is in the new list; otherwise it becomes
  the first group of the new list, or \<open>INVALID_GROUP\<close> when the list is empty.
\<close>

theorem OnInvalidateData_selection:
  assumes ok: "pool_ok pool"
    and gc: "\<not> scheme_class (livery_class w)"
    and cl: "int (lc_code (livery_class w)) = data + int (lc_code LC_GROUP_RAIL)"
    and fu: "length (filter (group_filter (window_number w) (class_vtype (livery_class w))) pool) \<le> fuel"
  shows "\<exists>w' b. OnInvalidateData fuel strnatcmp GetString pool used liveries local_company data True w = Some w' \<and>
           BuildGroupList fuel strnatcmp GetString pool (window_number w) (w\<lparr>need_rebuild := True\<rparr>) = Some b \<and>
           groups w' = groups b \<and> indents w' = indents b \<and> rows w' = length (groups w') \<and>
           livery_class w' = livery_class w \<and>
           (Group_IsValidID pool (unat (sel w)) \<longrightarrow> sel w' = sel w) \<and>
           (\<not> Group_IsValidID pool (unat (sel w)) \<longrightarrow>
              sel w' = (if groups w' = [] then ucast INVALID_GROUP
                        else ucast (index (hd (groups w')))))"
proof -
  let ?w0 = "w\<lparr>need_rebuild := True\<rparr>"
  have d: "data \<noteq> - 1" using gc cl by (cases "livery_class w") (simp_all add: scheme_class_def)
  have nr: "need_rebuild ?w0" by simp
  have fu': "length (filter (group_filter (window_number w) (class_vtype (livery_class ?w0))) pool) \<le> fuel"
    using fu by simp
  from BuildGroupList_rows[OF ok nr fu', of strnatcmp GetString] obtain out where
    b: "BuildGroupList fuel strnatcmp GetString pool (window_number w) ?w0 = Some (rows_window ?w0 out)"
    by blast
  let ?b = "rows_window ?w0 out"
  have lb: "livery_class ?b = livery_class w" and sb: "sel ?b = sel w" by (simp_all add: rows_window_def)
  let ?w2 = "SetRows used ?b"
  have w2: "?w2 = ?b\<lparr>rows := length (groups ?b)\<rparr>" using gc lb by (simp add: SetRows_def)
  let ?w' = "if \<not> Group_IsValidID pool (unat (sel w))
             then (if length (groups ?b) > 0
                   then ?b\<lparr>rows := length (groups ?b), sel := ucast (index (groups ?b ! 0))\<rparr>
                   else ?b\<lparr>rows := length (groups ?b), sel := ucast INVALID_GROUP\<rparr>)
             else ?b\<lparr>rows := length (groups ?b)\<rparr>"
  have o: "OnInvalidateData fuel strnatcmp GetString pool used liveries local_company data True w = Some ?w'"
    unfolding OnInvalidateData_def using d cl b by (simp add: Let_def w2 sb)
  have hd0: "groups ?b \<noteq> [] \<Longrightarrow> groups ?b ! 0 = hd (groups ?b)" by (simp add: hd_conv_nth)
  show ?thesis
  proof (intro exI conjI)
    show "OnInvalidateData fuel strnatcmp GetString pool used liveries local_company data True w = Some ?w'"
      by (rule o)
    show "BuildGroupList fuel strnatcmp GetString pool (window_number w) ?w0 = Some ?b" by (rule b)
    show "groups ?w' = groups ?b" by simp
    show "indents ?w' = indents ?b" by simp
    show "rows ?w' = length (groups ?w')" by simp
    show "livery_class ?w' = livery_class w" by (simp add: rows_window_def)
    show "Group_IsValidID pool (unat (sel w)) \<longrightarrow> sel ?w' = sel w" using sb by simp
    show "\<not> Group_IsValidID pool (unat (sel w)) \<longrightarrow>
              sel ?w' = (if groups ?w' = [] then ucast INVALID_GROUP else ucast (index (hd (groups ?w'))))"
      using hd0 by (cases "groups ?b = []") simp_all
  qed
qed

theorem OnInvalidateData_selection_counterexample:
  "pool_ok orphan_pool \<and>
   map_option groups (OnInvalidateData 3 by_length example_names orphan_pool 1 LIT_ALL 0 0 True orphan_window)
     = Some [mk_group 0 INVALID_GROUP] \<and>
   map_option sel (OnInvalidateData 3 by_length example_names orphan_pool 1 LIT_ALL 0 0 True orphan_window)
     = Some 1 \<and>
   orphan (filter (group_filter 0 0) orphan_pool) (mk_group 1 7)"
  by code_simp

theorem OnInvalidateData_selection_witness:
  "pool_ok orphan_pool \<and> \<not> scheme_class (livery_class orphan_window) \<and>
   int (lc_code (livery_class orphan_window)) = 0 + int (lc_code LC_GROUP_RAIL) \<and>
   length (filter (group_filter (window_number orphan_window) (class_vtype (livery_class orphan_window))) orphan_pool) \<le> 3 \<and>
   Group_IsValidID orphan_pool (unat (sel orphan_window)) \<and>
   map_option sel (OnInvalidateData 3 by_length example_names orphan_pool 1 LIT_ALL 0 0 True orphan_window)
     = Some (sel orphan_window)"
proof -
  have h1: "pool_ok orphan_pool" by code_simp
  have h2: "\<not> scheme_class (livery_class orphan_window)" by code_simp
  have h3: "int (lc_code (livery_class orphan_window)) = 0 + int (lc_code LC_GROUP_RAIL)" by code_simp
  have h4: "length (filter (group_filter (window_number orphan_window) (class_vtype (livery_class orphan_window))) orphan_pool) \<le> 3"
    by code_simp
  have v: "Group_IsValidID orphan_pool (unat (sel orphan_window))" by code_simp
  from OnInvalidateData_selection[OF h1 h2 h3 h4, of by_length example_names 1 LIT_ALL 0] v
  obtain w' where "OnInvalidateData 3 by_length example_names orphan_pool 1 LIT_ALL 0 0 True orphan_window = Some w'"
    "sel w' = sel orphan_window" by blast
  then show ?thesis using h1 h2 h3 h4 v by simp
qed

end
